theory Spec2Isabelle
  imports Main "HOL-Library.Sublist"
begin

section \<open>The resettable ticker of package emit (ticker.go)\<close>

text \<open>
  The Go program is one goroutine, \<open>Ticker.run\<close>, that owns a buffered channel of
  capacity one, an optional \<open>time.Ticker\<close> and a rendezvous channel for reset commands,
  together with the callers of \<open>Reset\<close> and \<open>Stop\<close> and the consumers of the output
  channel. The embedding is an interleaving semantics: a state record holding the fields
  of the \<open>Ticker\<close> struct and the objects they point to, the program counter of the
  control loop and the status of every call, and a function \<open>step\<close> that gives, for
  every event, the successor state (\<open>None\<close> when the event is not enabled, that is, when
  the goroutine that would perform it is blocked).

  Timestamps are natural numbers; a \<open>time.Duration\<close> is an integer (the program only
  compares durations with zero, it does no arithmetic on them).
\<close>

type_synonym timestamp = nat
type_synonym duration = int

subsection \<open>Panics\<close>

datatype fault =
    SendOnClosedChannel
  | CloseOfClosedChannel
  | NonPositiveInterval
  | NegativeWaitGroup

subsection \<open>Go channels of timestamps\<close>

record chan =
  buf :: "timestamp list"
  cap :: nat
  is_closed :: bool

definition make_chan :: "nat \<Rightarrow> chan" where
  "make_chan n = \<lparr>buf = [], cap = n, is_closed = False\<rparr>"

text \<open>
  \<open>ch <- v\<close>: panics on a closed channel, appends when the buffer has room, and
  otherwise blocks (\<open>None\<close>).
\<close>

definition chan_send :: "timestamp \<Rightarrow> chan \<Rightarrow> (fault + chan) option" where
  "chan_send v ch =
     (if is_closed ch then Some (Inl SendOnClosedChannel)
      else if length (buf ch) < cap ch then Some (Inr (ch\<lparr>buf := buf ch @ [v]\<rparr>))
      else None)"

text \<open>
  \<open><-ch\<close>: takes the oldest buffered value; on an empty closed channel it yields the
  zero value at once (\<open>Some (None, ch)\<close>); on an empty open channel it blocks (\<open>None\<close>).
\<close>

definition chan_recv :: "chan \<Rightarrow> (timestamp option \<times> chan) option" where
  "chan_recv ch =
     (case buf ch of
        v # vs \<Rightarrow> Some (Some v, ch\<lparr>buf := vs\<rparr>)
      | [] \<Rightarrow> if is_closed ch then Some (None, ch) else None)"

definition chan_close :: "chan \<Rightarrow> fault + chan" where
  "chan_close ch =
     (if is_closed ch then Inl CloseOfClosedChannel else Inr (ch\<lparr>is_closed := True\<rparr>))"

subsection \<open>Configuration, clocks, shutdown helper\<close>

record TickerConfig =
  CloseOnStop :: bool
  DropTickOnReset :: bool
  DropTickOnStop :: bool

text \<open>
  The objects created by \<open>time.NewTicker\<close> live in a list; a \<open>*time.Ticker\<close> is an
  index into it, \<open>nil\<close> is \<open>None\<close>.
\<close>

record clock =
  period :: duration
  running :: bool

text \<open>
  Modelled from the spec: the coordinated-shutdown helper \<open>chia.Shutdown\<close>, a module
  outside this repository. The spec describes it as an initiation signal that the control
  loop consumes exactly once (\<open>Init\<close>, which hands over the completion callback), a
  completion acknowledgement (\<open>Done\<close>), and a blocking request-and-wait operation
  (\<open>CloseAndWait\<close>) that triggers the initiation once, however many callers there are.
\<close>

record Shutdown =
  requested :: bool
  init_taken :: bool
  done_closed :: bool

text \<open>Modelled from the spec: a fresh helper, nothing requested, nothing acknowledged.\<close>

definition NewShutdown :: Shutdown where
  "NewShutdown = \<lparr>requested = False, init_taken = False, done_closed = False\<rparr>"

text \<open>Modelled from the spec: a receive from \<open>Init\<close> is ready once, after a request.\<close>

definition init_ready :: "Shutdown \<Rightarrow> bool" where
  "init_ready sh \<longleftrightarrow> requested sh \<and> \<not> init_taken sh"

text \<open>Modelled from the spec: the receive from \<open>Init\<close> consumes the initiation signal.\<close>

definition recv_Init :: "Shutdown \<Rightarrow> Shutdown" where
  "recv_Init sh = sh\<lparr>init_taken := True\<rparr>"

text \<open>
  Modelled from the spec: \<open>CloseAndWait\<close> first requests the shutdown, which triggers the
  initiation the first time and changes nothing afterwards, and then returns as soon as
  the completion has been acknowledged.
\<close>

definition CloseAndWait_request :: "Shutdown \<Rightarrow> Shutdown" where
  "CloseAndWait_request sh = sh\<lparr>requested := True\<rparr>"

definition CloseAndWait_returns :: "Shutdown \<Rightarrow> bool" where
  "CloseAndWait_returns sh \<longleftrightarrow> done_closed sh"

subsection \<open>The state\<close>

datatype loop_pc =
    Top
  | Waiting
  | Draining timestamp
  | Sending timestamp
  | Returned
  | Crashed fault

datatype call =
    NotCalled
  | ResetSelect duration
  | ResetWait duration
  | ResetSkipped duration
  | ResetReturned duration
  | StopWait
  | StopReturned

text \<open>The effects performed so far, oldest first (a history variable).\<close>

datatype action =
    Drain "timestamp option"
  | Send timestamp
  | Close
  | ClockStop nat
  | ClockStart nat duration
  | StopAck
  | ResetAck nat

record state =
  cfg :: TickerConfig
  chan_c :: chan
  stop :: Shutdown
  ticker :: "nat option"
  clocks :: "clock list"
  wg :: "nat \<Rightarrow> nat"
  calls :: "nat \<Rightarrow> call"
  pc :: loop_pc
  trace :: "action list"

subsection \<open>The standard library's ticker\<close>

text \<open>
  \<open>time.NewTicker(d)\<close> panics when \<open>d <= 0\<close> (its documented contract) and otherwise
  returns a new running ticker. \<open>(*time.Ticker).Stop\<close> turns the ticker off.
\<close>

definition time_NewTicker :: "duration \<Rightarrow> state \<Rightarrow> fault + (nat \<times> state)" where
  "time_NewTicker d s =
     (if d \<le> 0 then Inl NonPositiveInterval
      else Inr (length (clocks s),
                s\<lparr>clocks := clocks s @ [\<lparr>period = d, running = True\<rparr>],
                  trace := trace s @ [ClockStart (length (clocks s)) d]\<rparr>))"

definition time_Ticker_Stop :: "nat \<Rightarrow> state \<Rightarrow> state" where
  "time_Ticker_Stop h s =
     s\<lparr>clocks := (clocks s)[h := (clocks s ! h)\<lparr>running := False\<rparr>],
       trace := trace s @ [ClockStop h]\<rparr>"

subsection \<open>The methods of Ticker\<close>

text \<open>
  A method that panics yields the fault together with the state in which the panic
  strikes: what the method has done until then stays done.
\<close>

type_synonym panic = "fault \<times> state"

text \<open>\<open>drain\<close>: a receive from \<open>t.c\<close> inside a \<open>select\<close> with a \<open>default\<close> branch.\<close>

definition drain :: "state \<Rightarrow> state" where
  "drain s =
     (case chan_recv (chan_c s) of
        Some (x, ch') \<Rightarrow> s\<lparr>chan_c := ch', trace := trace s @ [Drain x]\<rparr>
      | None \<Rightarrow> s\<lparr>trace := trace s @ [Drain None]\<rparr>)"

definition close_c :: "state \<Rightarrow> panic + state" where
  "close_c s =
     (case chan_close (chan_c s) of
        Inl f \<Rightarrow> Inl (f, s)
      | Inr ch' \<Rightarrow> Inr (s\<lparr>chan_c := ch', trace := trace s @ [Close]\<rparr>))"

definition newTicker :: "duration \<Rightarrow> state \<Rightarrow> panic + state" where
  "newTicker d s =
     (let s1 = (case ticker s of Some h \<Rightarrow> time_Ticker_Stop h s | None \<Rightarrow> s) in
      if d = 0 then Inr (s1\<lparr>ticker := None\<rparr>)
      else (case time_NewTicker d s1 of
              Inl f \<Rightarrow> Inl (f, s1)
            | Inr (h, s2) \<Rightarrow> Inr (s2\<lparr>ticker := Some h\<rparr>)))"

definition handleStop :: "(state \<Rightarrow> panic + state) \<Rightarrow> state \<Rightarrow> panic + state" where
  "handleStop done s =
     (let s1 = (if DropTickOnStop (cfg s) then drain s else s) in
      case (if CloseOnStop (cfg s1) then close_c s1 else Inr s1) of
        Inl p \<Rightarrow> Inl p
      | Inr s2 \<Rightarrow>
          (case newTicker 0 s2 of
             Inl p \<Rightarrow> Inl p
           | Inr s3 \<Rightarrow> done s3))"

definition handleReset :: "duration \<Rightarrow> (state \<Rightarrow> panic + state) \<Rightarrow> state \<Rightarrow> panic + state" where
  "handleReset d done s =
     (let s1 = (if DropTickOnReset (cfg s) then drain s else s) in
      case newTicker d s1 of
        Inl p \<Rightarrow> Inl p
      | Inr s2 \<Rightarrow> done s2)"

subsection \<open>The completion callbacks\<close>

text \<open>
  \<open>wg.Done\<close> of the wait group local to call \<open>i\<close> of \<open>Reset\<close>; it panics when the
  counter would become negative.
\<close>

definition wg_Done :: "nat \<Rightarrow> state \<Rightarrow> panic + state" where
  "wg_Done i s =
     (if wg s i = 0 then Inl (NegativeWaitGroup, s)
      else Inr (s\<lparr>wg := (wg s)(i := wg s i - 1), trace := trace s @ [ResetAck i]\<rparr>))"

text \<open>Modelled from the spec: the callback received from \<open>Init\<close> acknowledges completion.\<close>

definition shutdown_done :: "state \<Rightarrow> panic + state" where
  "shutdown_done s =
     Inr (s\<lparr>stop := (stop s)\<lparr>done_closed := True\<rparr>, trace := trace s @ [StopAck]\<rparr>)"

subsection \<open>Construction\<close>

text \<open>
  A panic of \<open>newTicker\<close> inside the constructor leaves the caller with the fault alone:
  no \<open>Ticker\<close> has been returned and no control loop started.
\<close>

definition NewTicker_cfg :: "TickerConfig \<Rightarrow> duration \<Rightarrow> fault + state" where
  "NewTicker_cfg cf d =
     (case newTicker d
         \<lparr>cfg = cf, chan_c = make_chan 1, stop = NewShutdown, ticker = None, clocks = [],
          wg = (\<lambda>_. 0), calls = (\<lambda>_. NotCalled), pc = Top, trace = []\<rparr> of
        Inl (f, s) \<Rightarrow> Inl f
      | Inr s \<Rightarrow> Inr s)"

definition NewTicker :: "duration \<Rightarrow> fault + state" where
  "NewTicker d =
     NewTicker_cfg \<lparr>CloseOnStop = False, DropTickOnReset = False, DropTickOnStop = False\<rparr> d"

subsection \<open>The steps of the goroutines\<close>

datatype event =
    CallReset nat duration
  | ResetSkip nat
  | ResetReturn nat
  | CallStop nat
  | StopReturn nat
  | FastPath
  | RecvStop
  | RecvReset nat
  | RecvTick timestamp
  | DoDrain
  | DoSend
  | Consume

definition crashed :: "state \<Rightarrow> bool" where
  "crashed s = (case pc s of Crashed f \<Rightarrow> True | _ \<Rightarrow> False)"

text \<open>
  \<open>case done := <-t.stop.Init: t.handleStop(done); return\<close>: the receive consumes the
  initiation signal, the callback received is the acknowledgement of the shutdown helper.
  If the handler panics, the program ends in the state the handler had reached.
\<close>

definition run_stop :: "state \<Rightarrow> state" where
  "run_stop s =
     (case handleStop shutdown_done (s\<lparr>stop := recv_Init (stop s)\<rparr>) of
        Inl (f, s') \<Rightarrow> s'\<lparr>pc := Crashed f\<rparr>
      | Inr s' \<Rightarrow> s'\<lparr>pc := Returned\<rparr>)"

text \<open>
  \<open>case r := <-t.reset: t.handleReset(r.d, r.done)\<close>, the rendezvous with call \<open>i\<close>,
  which moves on to \<open>wg.Wait()\<close>. If the handler panics, the program ends in the state
  the handler had reached: the call has passed its \<open>select\<close>, and what the handler did
  before the panic (the drain, the stop of the old clock) has happened.
\<close>

definition run_reset :: "nat \<Rightarrow> duration \<Rightarrow> state \<Rightarrow> state" where
  "run_reset i d s =
     (case handleReset d (wg_Done i) (s\<lparr>calls := (calls s)(i := ResetWait d)\<rparr>) of
        Inl (f, s') \<Rightarrow> s'\<lparr>pc := Crashed f\<rparr>
      | Inr s' \<Rightarrow> s'\<lparr>pc := Top\<rparr>)"

text \<open>
  The callers: \<open>CallReset i d\<close> enters \<open>Reset(d)\<close> up to its \<open>select\<close>; \<open>ResetSkip\<close> is
  the branch \<open><-t.stop.Done\<close>; \<open>ResetReturn\<close> is the return of \<open>wg.Wait()\<close>;
  \<open>CallStop\<close> enters \<open>Stop()\<close> and requests the shutdown; \<open>StopReturn\<close> is the return of
  \<open>CloseAndWait\<close>. The control loop: \<open>FastPath\<close> is the first \<open>select\<close> of an iteration,
  \<open>RecvStop\<close>, \<open>RecvReset\<close> and \<open>RecvTick\<close> are the branches of the second one (the tick
  branch exists only when \<open>t.ticker\<close> is not \<open>nil\<close>), \<open>DoDrain\<close> and \<open>DoSend\<close> are the two
  statements of the tick branch. \<open>Consume\<close> is a receive from \<open>t.C\<close> by any consumer.

  Every call of \<open>Reset\<close> or \<open>Stop\<close> has a number of its own, so that calls made one
  after the other and calls made at the same time are both covered. A panic ends the
  program: no event is enabled in a crashed state. The loop performs one statement of
  \<open>run\<close> per step; a handler called from \<open>run\<close> is one step, since the only other
  goroutines that share state with it are the consumers, whose receive can be moved before
  or after the handler (it can only empty the buffer, which the handler never fills).
\<close>

fun step :: "event \<Rightarrow> state \<Rightarrow> state option" where
  "step (CallReset i d) s =
     (if \<not> crashed s \<and> calls s i = NotCalled
      then Some (s\<lparr>wg := (wg s)(i := 1), calls := (calls s)(i := ResetSelect d)\<rparr>)
      else None)"
| "step (ResetSkip i) s =
     (case calls s i of
        ResetSelect d \<Rightarrow>
          if \<not> crashed s \<and> done_closed (stop s)
          then Some (s\<lparr>calls := (calls s)(i := ResetSkipped d)\<rparr>) else None
      | _ \<Rightarrow> None)"
| "step (ResetReturn i) s =
     (case calls s i of
        ResetWait d \<Rightarrow>
          if \<not> crashed s \<and> wg s i = 0
          then Some (s\<lparr>calls := (calls s)(i := ResetReturned d)\<rparr>) else None
      | _ \<Rightarrow> None)"
| "step (CallStop i) s =
     (if \<not> crashed s \<and> calls s i = NotCalled
      then Some (s\<lparr>stop := CloseAndWait_request (stop s), calls := (calls s)(i := StopWait)\<rparr>)
      else None)"
| "step (StopReturn i) s =
     (if \<not> crashed s \<and> calls s i = StopWait \<and> CloseAndWait_returns (stop s)
      then Some (s\<lparr>calls := (calls s)(i := StopReturned)\<rparr>)
      else None)"
| "step FastPath s =
     (if pc s = Top
      then (if init_ready (stop s) then Some (run_stop s) else Some (s\<lparr>pc := Waiting\<rparr>))
      else None)"
| "step RecvStop s =
     (if pc s = Waiting \<and> init_ready (stop s) then Some (run_stop s) else None)"
| "step (RecvReset i) s =
     (case calls s i of
        ResetSelect d \<Rightarrow> if pc s = Waiting then Some (run_reset i d s) else None
      | _ \<Rightarrow> None)"
| "step (RecvTick tm) s =
     (if pc s = Waiting \<and> ticker s \<noteq> None then Some (s\<lparr>pc := Draining tm\<rparr>) else None)"
| "step DoDrain s =
     (case pc s of
        Draining tm \<Rightarrow> Some ((drain s)\<lparr>pc := Sending tm\<rparr>)
      | _ \<Rightarrow> None)"
| "step DoSend s =
     (case pc s of
        Sending tm \<Rightarrow>
          (case chan_send tm (chan_c s) of
             None \<Rightarrow> None
           | Some (Inl f) \<Rightarrow> Some (s\<lparr>pc := Crashed f\<rparr>)
           | Some (Inr ch') \<Rightarrow>
               Some (s\<lparr>chan_c := ch', trace := trace s @ [Send tm], pc := Top\<rparr>))
      | _ \<Rightarrow> None)"
| "step Consume s =
     (if crashed s then None
      else (case chan_recv (chan_c s) of
              None \<Rightarrow> None
            | Some (x, ch') \<Rightarrow> Some (s\<lparr>chan_c := ch'\<rparr>)))"

fun run :: "event list \<Rightarrow> state \<Rightarrow> state option" where
  "run [] s = Some s"
| "run (e # es) s = (case step e s of None \<Rightarrow> None | Some s1 \<Rightarrow> run es s1)"

text \<open>
  The states of the executions: construct with configuration \<open>cf\<close> and period \<open>d\<close>,
  then perform the events \<open>es\<close>.
\<close>

definition execution :: "TickerConfig \<Rightarrow> duration \<Rightarrow> event list \<Rightarrow> state option" where
  "execution cf d es = (case NewTicker_cfg cf d of Inl f \<Rightarrow> None | Inr s0 \<Rightarrow> run es s0)"

text \<open>The timestamps sent on the output channel so far.\<close>

fun sent :: "action list \<Rightarrow> timestamp list" where
  "sent [] = []"
| "sent (Send tm # as) = tm # sent as"
| "sent (a # as) = sent as"

subsection \<open>Invariants of the executions\<close>

text \<open>The indices of the running clocks.\<close>

definition live_clocks :: "state \<Rightarrow> nat list" where
  "live_clocks s = filter (\<lambda>i. running (clocks s ! i)) [0..<length (clocks s)]"

text \<open>The only running clock, if any, is the one \<open>t.ticker\<close> points to.\<close>

definition clock_inv :: "state \<Rightarrow> bool" where
  "clock_inv s \<longleftrightarrow> live_clocks s = (case ticker s of None \<Rightarrow> [] | Some h \<Rightarrow> [h])"

definition chan_inv :: "state \<Rightarrow> bool" where
  "chan_inv s \<longleftrightarrow>
     cap (chan_c s) = 1 \<and> length (buf (chan_c s)) \<le> 1 \<and>
     (\<forall>tm. pc s = Sending tm \<longrightarrow> buf (chan_c s) = []) \<and>
     (is_closed (chan_c s) \<longrightarrow> pc s = Returned) \<and>
     (\<forall>f. pc s = Crashed f \<longrightarrow> f = NonPositiveInterval)"

definition stop_inv :: "state \<Rightarrow> bool" where
  "stop_inv s \<longleftrightarrow>
     (init_taken (stop s) \<longleftrightarrow> pc s = Returned) \<and>
     (done_closed (stop s) \<longleftrightarrow> pc s = Returned) \<and>
     (pc s = Returned \<longrightarrow> requested (stop s) \<and> ticker s = None) \<and>
     count_list (trace s) StopAck = (if pc s = Returned then 1 else 0)"

text \<open>
  What the status of call \<open>i\<close> says about the state. A call that waits on its wait group
  has been applied in full, unless its period was negative and the handler panicked.
\<close>

definition call_ok :: "state \<Rightarrow> nat \<Rightarrow> call \<Rightarrow> bool" where
  "call_ok s i c =
     (case c of
        NotCalled \<Rightarrow> ResetAck i \<notin> set (trace s)
      | ResetSelect d \<Rightarrow> wg s i = 1 \<and> ResetAck i \<notin> set (trace s)
      | ResetWait d \<Rightarrow>
          (0 \<le> d \<and> wg s i = 0 \<and> ResetAck i \<in> set (trace s)) \<or>
          (d < 0 \<and> crashed s \<and> wg s i = 1 \<and> ResetAck i \<notin> set (trace s))
      | ResetSkipped d \<Rightarrow> pc s = Returned \<and> ResetAck i \<notin> set (trace s)
      | ResetReturned d \<Rightarrow> 0 \<le> d \<and> ResetAck i \<in> set (trace s)
      | StopWait \<Rightarrow> requested (stop s)
      | StopReturned \<Rightarrow> pc s = Returned)"

definition call_inv :: "state \<Rightarrow> bool" where
  "call_inv s \<longleftrightarrow> (\<forall>i. call_ok s i (calls s i))"

text \<open>
  While the program runs, the clocks are as \<open>clock_inv\<close> says; after a panic no clock is
  running (the panic of \<open>time.NewTicker\<close> strikes after the old clock has been stopped,
  with \<open>t.ticker\<close> still pointing to it).
\<close>

definition clock_ok :: "state \<Rightarrow> bool" where
  "clock_ok s \<longleftrightarrow> (if crashed s then live_clocks s = [] else clock_inv s)"

definition invariant :: "state \<Rightarrow> bool" where
  "invariant s \<longleftrightarrow> chan_inv s \<and> clock_ok s \<and> stop_inv s \<and> call_inv s"

text \<open>The output channel is closed at most once, and only if the configuration asks for it.\<close>

definition close_inv :: "state \<Rightarrow> bool" where
  "close_inv s \<longleftrightarrow>
     count_list (trace s) Close = (if is_closed (chan_c s) then 1 else 0) \<and>
     (is_closed (chan_c s) \<longrightarrow> CloseOnStop (cfg s))"

subsection \<open>The effects of the handlers, as lists of actions\<close>

text \<open>What a call of \<open>drain\<close> appends to the history when it is made (\<open>b\<close>) or not.\<close>

definition drain_acts :: "bool \<Rightarrow> state \<Rightarrow> action list" where
  "drain_acts b s =
     (if b then [Drain (case buf (chan_c s) of [] \<Rightarrow> None | v # vs \<Rightarrow> Some v)] else [])"

text \<open>What \<open>newTicker d\<close> appends: the old clock is stopped, then a new one is started.\<close>

definition clock_acts :: "duration \<Rightarrow> state \<Rightarrow> action list" where
  "clock_acts d s =
     (case ticker s of Some h \<Rightarrow> [ClockStop h] | None \<Rightarrow> []) @
     (if d = 0 then [] else [ClockStart (length (clocks s)) d])"

text \<open>The clocks after the one \<open>t.ticker\<close> points to has been stopped.\<close>

definition stopped_clocks :: "state \<Rightarrow> clock list" where
  "stopped_clocks s =
     (case ticker s of
        None \<Rightarrow> clocks s
      | Some h \<Rightarrow> (clocks s)[h := (clocks s ! h)\<lparr>running := False\<rparr>])"

subsection \<open>Runs in which the ticker is not resumed\<close>

text \<open>
  The event applies a reset with a period other than zero: the loop takes the command of a
  call \<open>Reset(d)\<close> with \<open>d \<noteq> 0\<close>.
\<close>

definition resumes :: "event \<Rightarrow> state \<Rightarrow> bool" where
  "resumes e s =
     (case e of
        RecvReset i \<Rightarrow> (case calls s i of ResetSelect d \<Rightarrow> d \<noteq> 0 | _ \<Rightarrow> False)
      | _ \<Rightarrow> False)"

text \<open>The run of \<open>es\<close>, provided none of its events applies such a reset.\<close>

fun paused_run :: "event list \<Rightarrow> state \<Rightarrow> state option" where
  "paused_run [] s = Some s"
| "paused_run (e # es) s =
     (if resumes e s then None
      else (case step e s of None \<Rightarrow> None | Some s1 \<Rightarrow> paused_run es s1))"

text \<open>The ticker is paused: no clock, and the loop is not in the middle of a tick delivery.\<close>

definition quiet :: "state \<Rightarrow> bool" where
  "quiet s \<longleftrightarrow> ticker s = None \<and> (\<forall>tm. pc s \<noteq> Draining tm \<and> pc s \<noteq> Sending tm)"

text \<open>The events performed by the control loop, as opposed to callers and consumers.\<close>

fun loop_event :: "event \<Rightarrow> bool" where
  "loop_event FastPath = True"
| "loop_event RecvStop = True"
| "loop_event (RecvReset i) = True"
| "loop_event (RecvTick tm) = True"
| "loop_event DoDrain = True"
| "loop_event DoSend = True"
| "loop_event e = False"

subsection \<open>The teardown\<close>

text \<open>
  The history of \<open>s\<close> is that of the state \<open>s0\<close>, in which the loop had not returned
  and had acknowledged nothing, followed by the whole teardown: the drain if configured,
  the close if configured, the stop of the clock that ran in \<open>s0\<close>, and last the
  acknowledgement.
\<close>

definition stopped_from :: "state \<Rightarrow> state \<Rightarrow> bool" where
  "stopped_from s0 s \<longleftrightarrow>
     pc s0 \<noteq> Returned \<and> clock_inv s0 \<and> StopAck \<notin> set (trace s0) \<and>
     trace s = trace s0 @ drain_acts (DropTickOnStop (cfg s)) s0 @
               (if CloseOnStop (cfg s) then [Close] else []) @ clock_acts 0 s0 @ [StopAck]"

text \<open>Once the loop has returned, the teardown has been done, and done before the acknowledgement.\<close>

definition teardown_inv :: "state \<Rightarrow> bool" where
  "teardown_inv s \<longleftrightarrow>
     (pc s = Returned \<longrightarrow>
        live_clocks s = [] \<and> is_closed (chan_c s) = CloseOnStop (cfg s) \<and>
        (DropTickOnStop (cfg s) \<longrightarrow> buf (chan_c s) = []) \<and>
        (\<exists>s0. stopped_from s0 s))"

subsection \<open>What the buffer holds after a reset\<close>

text \<open>The number of drains performed so far.\<close>

fun drains :: "action list \<Rightarrow> nat" where
  "drains [] = 0"
| "drains (Drain x # as) = Suc (drains as)"
| "drains (a # as) = drains as"

text \<open>
  The buffer holds nothing, or only the timestamp sent last, and that one was sent after
  the first \<open>n\<close> sends: nothing sent before is left in it.
\<close>

definition fresh_buf :: "nat \<Rightarrow> state \<Rightarrow> bool" where
  "fresh_buf n s \<longleftrightarrow>
     n \<le> length (sent (trace s)) \<and>
     (buf (chan_c s) = [] \<or>
      (n < length (sent (trace s)) \<and> buf (chan_c s) = [last (sent (trace s))]))"

subsection \<open>Configurations used in the examples\<close>

definition keep_cfg :: TickerConfig where
  "keep_cfg = \<lparr>CloseOnStop = False, DropTickOnReset = False, DropTickOnStop = False\<rparr>"

definition drop_cfg :: TickerConfig where
  "drop_cfg = \<lparr>CloseOnStop = False, DropTickOnReset = True, DropTickOnStop = False\<rparr>"

definition close_cfg :: TickerConfig where
  "close_cfg = \<lparr>CloseOnStop = True, DropTickOnReset = False, DropTickOnStop = False\<rparr>"

definition close_drop_cfg :: TickerConfig where
  "close_drop_cfg = \<lparr>CloseOnStop = True, DropTickOnReset = False, DropTickOnStop = True\<rparr>"

section \<open>Lemmas about the handlers\<close>

lemmas prim_defs = drain_def chan_recv_def chan_send_def chan_close_def close_c_def
  time_NewTicker_def time_Ticker_Stop_def wg_Done_def shutdown_done_def recv_Init_def
  CloseAndWait_request_def CloseAndWait_returns_def

lemma newTicker_frame:
  assumes "newTicker d s = Inr s'"
  shows "cfg s' = cfg s" "chan_c s' = chan_c s" "stop s' = stop s" "wg s' = wg s"
        "calls s' = calls s" "pc s' = pc s"
  using assms by (auto simp: newTicker_def Let_def prim_defs split: option.splits if_splits)

lemma newTicker_ok: "0 \<le> d \<Longrightarrow> \<exists>s'. newTicker d s = Inr s'"
  by (auto simp: newTicker_def Let_def prim_defs split: option.splits)

lemma newTicker_neg:
  "d < 0 \<Longrightarrow>
   newTicker d s =
     Inl (NonPositiveInterval, case ticker s of Some h \<Rightarrow> time_Ticker_Stop h s | None \<Rightarrow> s)"
  by (auto simp: newTicker_def Let_def prim_defs split: option.splits)

lemma newTicker_nil: "newTicker d s = Inr s' \<Longrightarrow> ticker s' = None \<longleftrightarrow> d = 0"
  by (auto simp: newTicker_def Let_def prim_defs split: option.splits if_splits)

lemma newTicker_trace:
  "newTicker d s = Inr s' \<Longrightarrow>
   trace s' = trace s @ (case ticker s of Some h \<Rightarrow> [ClockStop h] | None \<Rightarrow> [])
                     @ (if d = 0 then [] else [ClockStart (length (clocks s)) d])"
  by (auto simp: newTicker_def Let_def prim_defs split: option.splits if_splits)

lemma live_iff: "i \<in> set (live_clocks s) \<longleftrightarrow> i < length (clocks s) \<and> running (clocks s ! i)"
  by (auto simp: live_clocks_def)

lemma clock_inv_NoneD: "clock_inv s \<Longrightarrow> ticker s = None \<Longrightarrow> i < length (clocks s) \<Longrightarrow> \<not> running (clocks s ! i)"
  using live_iff[of i s] by (simp add: clock_inv_def)

lemma clock_inv_SomeD: "clock_inv s \<Longrightarrow> ticker s = Some h \<Longrightarrow>
   h < length (clocks s) \<and> (\<forall>i < length (clocks s). running (clocks s ! i) \<longleftrightarrow> i = h)"
proof -
  assume a: "clock_inv s" "ticker s = Some h"
  then have l: "live_clocks s = [h]" by (simp add: clock_inv_def)
  have "\<And>i. i \<in> set (live_clocks s) \<longleftrightarrow> i = h" using l by simp
  then show ?thesis using live_iff[of _ s] by blast
qed

lemma newTicker_live:
  assumes "clock_inv s" "newTicker d s = Inr s'"
  shows "live_clocks s' = (if d = 0 then [] else [length (clocks s)])"
proof (cases "ticker s")
  case None
  show ?thesis using assms None clock_inv_NoneD[OF assms(1) None]
    by (auto simp: newTicker_def Let_def prim_defs live_clocks_def nth_append filter_empty_conv split: if_splits)
next
  case (Some h)
  show ?thesis using assms Some clock_inv_SomeD[OF assms(1) Some]
    by (auto simp: newTicker_def Let_def prim_defs live_clocks_def nth_append filter_empty_conv nth_list_update split: if_splits)
qed

lemma newTicker_clock_inv: "clock_inv s \<Longrightarrow> newTicker d s = Inr s' \<Longrightarrow> clock_inv s'"
  using newTicker_live[of s d s'] newTicker_nil[of d s s']
  by (auto simp: clock_inv_def  newTicker_def Let_def prim_defs split: option.splits if_splits)

lemma drain_frame:
  "cfg (drain s) = cfg s" "stop (drain s) = stop s" "ticker (drain s) = ticker s"
  "clocks (drain s) = clocks s" "wg (drain s) = wg s" "calls (drain s) = calls s"
  "pc (drain s) = pc s"
  by (auto simp: drain_def chan_recv_def split: list.splits)

lemma drain_chan:
  "buf (chan_c (drain s)) = tl (buf (chan_c s))" "cap (chan_c (drain s)) = cap (chan_c s)"
  "is_closed (chan_c (drain s)) = is_closed (chan_c s)"
  by (auto simp: drain_def chan_recv_def split: list.splits)

lemma drain_trace: "trace (drain s) = trace s @ drain_acts True s"
  by (auto simp: drain_def chan_recv_def drain_acts_def split: list.splits)

lemma newTicker_clocks:
  "newTicker d s = Inr s' \<Longrightarrow>
   clocks s' = stopped_clocks s @ (if d = 0 then [] else [\<lparr>period = d, running = True\<rparr>])"
  by (auto simp: newTicker_def Let_def prim_defs stopped_clocks_def split: option.splits if_splits)

lemma newTicker_ticker:
  "newTicker d s = Inr s' \<Longrightarrow> ticker s' = (if d = 0 then None else Some (length (clocks s)))"
  by (auto simp: newTicker_def Let_def prim_defs split: option.splits if_splits)

lemma newTicker_trace': "newTicker d s = Inr s' \<Longrightarrow> trace s' = trace s @ clock_acts d s"
  by (simp add: newTicker_trace clock_acts_def)

text \<open>handleReset\<close>

lemma handleReset_neg:
  assumes "d < 0"
  shows "\<exists>s2. handleReset d done s = Inl (NonPositiveInterval, s2) \<and>
     cfg s2 = cfg s \<and> stop s2 = stop s \<and> wg s2 = wg s \<and> calls s2 = calls s \<and> pc s2 = pc s \<and>
     buf (chan_c s2) = (if DropTickOnReset (cfg s) then tl (buf (chan_c s)) else buf (chan_c s)) \<and>
     cap (chan_c s2) = cap (chan_c s) \<and> is_closed (chan_c s2) = is_closed (chan_c s) \<and>
     ticker s2 = ticker s \<and> clocks s2 = stopped_clocks s \<and>
     trace s2 = trace s @ drain_acts (DropTickOnReset (cfg s)) s @ clock_acts 0 s"
proof -
  define s1 where "s1 = (if DropTickOnReset (cfg s) then drain s else s)"
  define s2 where "s2 = (case ticker s1 of Some h \<Rightarrow> time_Ticker_Stop h s1 | None \<Rightarrow> s1)"
  have h: "handleReset d done s = Inl (NonPositiveInterval, s2)"
    using assms by (simp add: handleReset_def Let_def s1_def[symmetric] newTicker_neg s2_def)
  have s1: "cfg s1 = cfg s" "stop s1 = stop s" "wg s1 = wg s" "calls s1 = calls s" "pc s1 = pc s"
    "ticker s1 = ticker s" "clocks s1 = clocks s"
    "buf (chan_c s1) = (if DropTickOnReset (cfg s) then tl (buf (chan_c s)) else buf (chan_c s))"
    "cap (chan_c s1) = cap (chan_c s)" "is_closed (chan_c s1) = is_closed (chan_c s)"
    "trace s1 = trace s @ drain_acts (DropTickOnReset (cfg s)) s"
    by (simp_all add: s1_def drain_frame drain_chan drain_trace drain_acts_def)
  have s2: "cfg s2 = cfg s1" "stop s2 = stop s1" "wg s2 = wg s1" "calls s2 = calls s1"
    "pc s2 = pc s1" "chan_c s2 = chan_c s1" "ticker s2 = ticker s1"
    "clocks s2 = stopped_clocks s1" "trace s2 = trace s1 @ clock_acts 0 s1"
    by (simp_all add: s2_def time_Ticker_Stop_def stopped_clocks_def clock_acts_def
        split: option.splits)
  have sc: "stopped_clocks s1 = stopped_clocks s" "clock_acts 0 s1 = clock_acts 0 s"
    by (simp_all add: stopped_clocks_def clock_acts_def s1 split: option.splits)
  show ?thesis using h by (intro exI[of _ s2]) (simp add: s1 s2 sc)
qed

lemma handleReset_pre:
  assumes "0 \<le> d"
  shows "\<exists>s2. handleReset d done s = done s2 \<and>
     cfg s2 = cfg s \<and> stop s2 = stop s \<and> wg s2 = wg s \<and> calls s2 = calls s \<and> pc s2 = pc s \<and>
     buf (chan_c s2) = (if DropTickOnReset (cfg s) then tl (buf (chan_c s)) else buf (chan_c s)) \<and>
     cap (chan_c s2) = cap (chan_c s) \<and> is_closed (chan_c s2) = is_closed (chan_c s) \<and>
     ticker s2 = (if d = 0 then None else Some (length (clocks s))) \<and>
     clocks s2 = stopped_clocks s @ (if d = 0 then [] else [\<lparr>period = d, running = True\<rparr>]) \<and>
     trace s2 = trace s @ drain_acts (DropTickOnReset (cfg s)) s @ clock_acts d s"
proof -
  define s1 where "s1 = (if DropTickOnReset (cfg s) then drain s else s)"
  obtain s2 where n: "newTicker d s1 = Inr s2" using newTicker_ok[OF assms] by blast
  have h: "handleReset d done s = done s2"
    using n by (simp add: handleReset_def Let_def s1_def)
  have s1: "cfg s1 = cfg s" "stop s1 = stop s" "wg s1 = wg s" "calls s1 = calls s" "pc s1 = pc s"
    "ticker s1 = ticker s" "clocks s1 = clocks s"
    "buf (chan_c s1) = (if DropTickOnReset (cfg s) then tl (buf (chan_c s)) else buf (chan_c s))"
    "cap (chan_c s1) = cap (chan_c s)" "is_closed (chan_c s1) = is_closed (chan_c s)"
    "trace s1 = trace s @ drain_acts (DropTickOnReset (cfg s)) s"
    by (simp_all add: s1_def drain_frame drain_chan drain_trace drain_acts_def)
  have sc: "stopped_clocks s1 = stopped_clocks s" "clock_acts d s1 = clock_acts d s"
    by (simp_all add: stopped_clocks_def clock_acts_def s1 split: option.splits)
  show ?thesis
    using h newTicker_frame[OF n] newTicker_clocks[OF n] newTicker_ticker[OF n] newTicker_trace'[OF n]
    by (intro exI[of _ s2]) (simp add: s1 sc)
qed

text \<open>handleStop\<close>

lemma handleStop_pre:
  assumes "\<not> is_closed (chan_c s)"
  shows "\<exists>s3. handleStop done s = done s3 \<and>
     cfg s3 = cfg s \<and> stop s3 = stop s \<and> wg s3 = wg s \<and> calls s3 = calls s \<and> pc s3 = pc s \<and>
     buf (chan_c s3) = (if DropTickOnStop (cfg s) then tl (buf (chan_c s)) else buf (chan_c s)) \<and>
     cap (chan_c s3) = cap (chan_c s) \<and> is_closed (chan_c s3) = CloseOnStop (cfg s) \<and>
     ticker s3 = None \<and> clocks s3 = stopped_clocks s \<and>
     trace s3 = trace s @ drain_acts (DropTickOnStop (cfg s)) s @
                (if CloseOnStop (cfg s) then [Close] else []) @ clock_acts 0 s"
proof -
  define s1 where "s1 = (if DropTickOnStop (cfg s) then drain s else s)"
  have s1: "cfg s1 = cfg s" "stop s1 = stop s" "wg s1 = wg s" "calls s1 = calls s" "pc s1 = pc s"
    "ticker s1 = ticker s" "clocks s1 = clocks s"
    "buf (chan_c s1) = (if DropTickOnStop (cfg s) then tl (buf (chan_c s)) else buf (chan_c s))"
    "cap (chan_c s1) = cap (chan_c s)" "is_closed (chan_c s1) = is_closed (chan_c s)"
    "trace s1 = trace s @ drain_acts (DropTickOnStop (cfg s)) s"
    by (simp_all add: s1_def drain_frame drain_chan drain_trace drain_acts_def)
  define s2 where "s2 = (if CloseOnStop (cfg s1)
       then s1\<lparr>chan_c := (chan_c s1)\<lparr>is_closed := True\<rparr>, trace := trace s1 @ [Close]\<rparr> else s1)"
  have c: "(if CloseOnStop (cfg s1) then close_c s1 else Inr s1) = Inr s2"
    using assms by (simp add: s2_def close_c_def chan_close_def s1)
  have s2: "cfg s2 = cfg s" "stop s2 = stop s" "wg s2 = wg s" "calls s2 = calls s" "pc s2 = pc s"
    "ticker s2 = ticker s" "clocks s2 = clocks s"
    "buf (chan_c s2) = (if DropTickOnStop (cfg s) then tl (buf (chan_c s)) else buf (chan_c s))"
    "cap (chan_c s2) = cap (chan_c s)" "is_closed (chan_c s2) = CloseOnStop (cfg s)"
    "trace s2 = trace s @ drain_acts (DropTickOnStop (cfg s)) s @ (if CloseOnStop (cfg s) then [Close] else [])"
    using assms by (simp_all add: s2_def s1)
  obtain s3 where n: "newTicker 0 s2 = Inr s3" using newTicker_ok[of 0 s2] by auto
  have h: "handleStop done s = done s3"
    using n c unfolding handleStop_def Let_def s1_def[symmetric] by simp
  have sc: "stopped_clocks s2 = stopped_clocks s" "clock_acts 0 s2 = clock_acts 0 s"
    by (simp_all add: stopped_clocks_def clock_acts_def s2 split: option.splits)
  show ?thesis
    using h newTicker_frame[OF n] newTicker_clocks[OF n] newTicker_ticker[OF n] newTicker_trace'[OF n]
    by (intro exI[of _ s3]) (simp add: s2 sc)
qed

lemma acts_stop_upd [simp]:
  "drain_acts b (s\<lparr>stop := x\<rparr>) = drain_acts b s"
  "clock_acts d (s\<lparr>stop := x\<rparr>) = clock_acts d s"
  "stopped_clocks (s\<lparr>stop := x\<rparr>) = stopped_clocks s"
  "drain_acts b (s\<lparr>calls := y\<rparr>) = drain_acts b s"
  "clock_acts d (s\<lparr>calls := y\<rparr>) = clock_acts d s"
  "stopped_clocks (s\<lparr>calls := y\<rparr>) = stopped_clocks s"
  by (simp_all add: drain_acts_def clock_acts_def stopped_clocks_def split: option.splits)

lemma run_stop_fields:
  assumes "\<not> is_closed (chan_c s)"
  shows "pc (run_stop s) = Returned" "cfg (run_stop s) = cfg s" "wg (run_stop s) = wg s"
    "calls (run_stop s) = calls s"
    "stop (run_stop s) = (stop s)\<lparr>init_taken := True, done_closed := True\<rparr>"
    "ticker (run_stop s) = None" "clocks (run_stop s) = stopped_clocks s"
    "buf (chan_c (run_stop s)) =
       (if DropTickOnStop (cfg s) then tl (buf (chan_c s)) else buf (chan_c s))"
    "cap (chan_c (run_stop s)) = cap (chan_c s)"
    "is_closed (chan_c (run_stop s)) = CloseOnStop (cfg s)"
    "trace (run_stop s) = trace s @ drain_acts (DropTickOnStop (cfg s)) s @
        (if CloseOnStop (cfg s) then [Close] else []) @ clock_acts 0 s @ [StopAck]"
proof -
  let ?s0 = "s\<lparr>stop := recv_Init (stop s)\<rparr>"
  have "\<not> is_closed (chan_c ?s0)" using assms by simp
  from handleStop_pre[OF this, of shutdown_done]
  obtain s3 where h: "handleStop shutdown_done ?s0 = shutdown_done s3"
    and f: "cfg s3 = cfg s" "stop s3 = (stop s)\<lparr>init_taken := True\<rparr>" "wg s3 = wg s"
      "calls s3 = calls s"
      "buf (chan_c s3) = (if DropTickOnStop (cfg s) then tl (buf (chan_c s)) else buf (chan_c s))"
      "cap (chan_c s3) = cap (chan_c s)" "is_closed (chan_c s3) = CloseOnStop (cfg s)"
      "ticker s3 = None" "clocks s3 = stopped_clocks s"
      "trace s3 = trace s @ drain_acts (DropTickOnStop (cfg s)) s @
                (if CloseOnStop (cfg s) then [Close] else []) @ clock_acts 0 s"
    by (auto simp: recv_Init_def)
  have r: "run_stop s = s3\<lparr>stop := (stop s3)\<lparr>done_closed := True\<rparr>, trace := trace s3 @ [StopAck],
                          pc := Returned\<rparr>"
    by (simp add: run_stop_def h shutdown_done_def)
  show "pc (run_stop s) = Returned" "cfg (run_stop s) = cfg s" "wg (run_stop s) = wg s"
    "calls (run_stop s) = calls s"
    "stop (run_stop s) = (stop s)\<lparr>init_taken := True, done_closed := True\<rparr>"
    "ticker (run_stop s) = None" "clocks (run_stop s) = stopped_clocks s"
    "buf (chan_c (run_stop s)) =
       (if DropTickOnStop (cfg s) then tl (buf (chan_c s)) else buf (chan_c s))"
    "cap (chan_c (run_stop s)) = cap (chan_c s)"
    "is_closed (chan_c (run_stop s)) = CloseOnStop (cfg s)"
    "trace (run_stop s) = trace s @ drain_acts (DropTickOnStop (cfg s)) s @
        (if CloseOnStop (cfg s) then [Close] else []) @ clock_acts 0 s @ [StopAck]"
    by (simp_all add: r f)
qed

lemma run_reset_neg:
  assumes "d < 0"
  shows "pc (run_reset i d s) = Crashed NonPositiveInterval" "cfg (run_reset i d s) = cfg s"
    "stop (run_reset i d s) = stop s" "wg (run_reset i d s) = wg s"
    "calls (run_reset i d s) = (calls s)(i := ResetWait d)"
    "ticker (run_reset i d s) = ticker s" "clocks (run_reset i d s) = stopped_clocks s"
    "buf (chan_c (run_reset i d s)) =
       (if DropTickOnReset (cfg s) then tl (buf (chan_c s)) else buf (chan_c s))"
    "cap (chan_c (run_reset i d s)) = cap (chan_c s)"
    "is_closed (chan_c (run_reset i d s)) = is_closed (chan_c s)"
    "trace (run_reset i d s) = trace s @ drain_acts (DropTickOnReset (cfg s)) s @ clock_acts 0 s"
proof -
  let ?s0 = "s\<lparr>calls := (calls s)(i := ResetWait d)\<rparr>"
  from handleReset_neg[OF assms, of "wg_Done i" ?s0]
  obtain s2 where h: "handleReset d (wg_Done i) ?s0 = Inl (NonPositiveInterval, s2)"
    and f: "cfg s2 = cfg s" "stop s2 = stop s" "wg s2 = wg s"
      "calls s2 = (calls s)(i := ResetWait d)"
      "buf (chan_c s2) = (if DropTickOnReset (cfg s) then tl (buf (chan_c s)) else buf (chan_c s))"
      "cap (chan_c s2) = cap (chan_c s)" "is_closed (chan_c s2) = is_closed (chan_c s)"
      "ticker s2 = ticker s" "clocks s2 = stopped_clocks s"
      "trace s2 = trace s @ drain_acts (DropTickOnReset (cfg s)) s @ clock_acts 0 s"
    by auto
  have r: "run_reset i d s = s2\<lparr>pc := Crashed NonPositiveInterval\<rparr>"
    by (simp add: run_reset_def h)
  show "pc (run_reset i d s) = Crashed NonPositiveInterval" "cfg (run_reset i d s) = cfg s"
    "stop (run_reset i d s) = stop s" "wg (run_reset i d s) = wg s"
    "calls (run_reset i d s) = (calls s)(i := ResetWait d)"
    "ticker (run_reset i d s) = ticker s" "clocks (run_reset i d s) = stopped_clocks s"
    "buf (chan_c (run_reset i d s)) =
       (if DropTickOnReset (cfg s) then tl (buf (chan_c s)) else buf (chan_c s))"
    "cap (chan_c (run_reset i d s)) = cap (chan_c s)"
    "is_closed (chan_c (run_reset i d s)) = is_closed (chan_c s)"
    "trace (run_reset i d s) = trace s @ drain_acts (DropTickOnReset (cfg s)) s @ clock_acts 0 s"
    by (simp_all add: r f)
qed

lemma run_reset_fields:
  assumes "0 \<le> d" "wg s i \<noteq> 0"
  shows "pc (run_reset i d s) = Top" "cfg (run_reset i d s) = cfg s"
    "stop (run_reset i d s) = stop s"
    "wg (run_reset i d s) = (wg s)(i := wg s i - 1)"
    "calls (run_reset i d s) = (calls s)(i := ResetWait d)"
    "ticker (run_reset i d s) = (if d = 0 then None else Some (length (clocks s)))"
    "clocks (run_reset i d s) =
       stopped_clocks s @ (if d = 0 then [] else [\<lparr>period = d, running = True\<rparr>])"
    "buf (chan_c (run_reset i d s)) =
       (if DropTickOnReset (cfg s) then tl (buf (chan_c s)) else buf (chan_c s))"
    "cap (chan_c (run_reset i d s)) = cap (chan_c s)"
    "is_closed (chan_c (run_reset i d s)) = is_closed (chan_c s)"
    "trace (run_reset i d s) =
       trace s @ drain_acts (DropTickOnReset (cfg s)) s @ clock_acts d s @ [ResetAck i]"
proof -
  let ?s0 = "s\<lparr>calls := (calls s)(i := ResetWait d)\<rparr>"
  from handleReset_pre[OF assms(1), of "wg_Done i" ?s0]
  obtain s2 where h: "handleReset d (wg_Done i) ?s0 = wg_Done i s2"
    and f: "cfg s2 = cfg s" "stop s2 = stop s" "wg s2 = wg s"
      "calls s2 = (calls s)(i := ResetWait d)"
      "buf (chan_c s2) = (if DropTickOnReset (cfg s) then tl (buf (chan_c s)) else buf (chan_c s))"
      "cap (chan_c s2) = cap (chan_c s)" "is_closed (chan_c s2) = is_closed (chan_c s)"
      "ticker s2 = (if d = 0 then None else Some (length (clocks s)))"
      "clocks s2 = stopped_clocks s @ (if d = 0 then [] else [\<lparr>period = d, running = True\<rparr>])"
      "trace s2 = trace s @ drain_acts (DropTickOnReset (cfg s)) s @ clock_acts d s"
    by auto
  have r: "run_reset i d s = s2\<lparr>wg := (wg s2)(i := wg s2 i - 1), trace := trace s2 @ [ResetAck i],
                          pc := Top\<rparr>"
    using assms(2) by (simp add: run_reset_def h wg_Done_def f)
  show "pc (run_reset i d s) = Top" "cfg (run_reset i d s) = cfg s"
    "stop (run_reset i d s) = stop s"
    "wg (run_reset i d s) = (wg s)(i := wg s i - 1)"
    "calls (run_reset i d s) = (calls s)(i := ResetWait d)"
    "ticker (run_reset i d s) = (if d = 0 then None else Some (length (clocks s)))"
    "clocks (run_reset i d s) =
       stopped_clocks s @ (if d = 0 then [] else [\<lparr>period = d, running = True\<rparr>])"
    "buf (chan_c (run_reset i d s)) =
       (if DropTickOnReset (cfg s) then tl (buf (chan_c s)) else buf (chan_c s))"
    "cap (chan_c (run_reset i d s)) = cap (chan_c s)"
    "is_closed (chan_c (run_reset i d s)) = is_closed (chan_c s)"
    "trace (run_reset i d s) =
       trace s @ drain_acts (DropTickOnReset (cfg s)) s @ clock_acts d s @ [ResetAck i]"
    by (simp_all add: r f)
qed

lemma length_stopped_clocks [simp]: "length (stopped_clocks s) = length (clocks s)"
  by (simp add: stopped_clocks_def split: option.splits)

lemma stopped_clocks_off:
  assumes "clock_inv s" "i < length (clocks s)"
  shows "\<not> running (stopped_clocks s ! i)"
proof (cases "ticker s")
  case None
  then show ?thesis using clock_inv_NoneD[OF assms(1) None assms(2)]
    by (simp add: stopped_clocks_def)
next
  case (Some h)
  then show ?thesis using clock_inv_SomeD[OF assms(1) Some] assms(2)
    by (auto simp: stopped_clocks_def nth_list_update)
qed

lemma clock_inv_after:
  assumes "clock_inv s"
    and "clocks s' = stopped_clocks s @ (if d = 0 then [] else [\<lparr>period = d, running = True\<rparr>])"
    and "ticker s' = (if d = 0 then None else Some (length (clocks s)))"
  shows "live_clocks s' = (if d = 0 then [] else [length (clocks s)])" "clock_inv s'"
proof -
  show l: "live_clocks s' = (if d = 0 then [] else [length (clocks s)])"
    using assms(2) stopped_clocks_off[OF assms(1)]
    by (auto simp: live_clocks_def nth_append filter_empty_conv)
  show "clock_inv s'" using l assms(3) by (simp add: clock_inv_def)
qed

lemma step_cases [consumes 1, case_names CallReset ResetSkip ResetReturn CallStop StopReturn
    FastStop FastWait RecvStop RecvReset RecvTick DoDrain SendOk SendPanic Consume]:
  assumes "step e s = Some s'"
  obtains
    (CallReset) i d where "e = CallReset i d" "\<not> crashed s" "calls s i = NotCalled"
      "s' = s\<lparr>wg := (wg s)(i := 1), calls := (calls s)(i := ResetSelect d)\<rparr>"
  | (ResetSkip) i d where "e = ResetSkip i" "\<not> crashed s" "calls s i = ResetSelect d"
      "done_closed (stop s)" "s' = s\<lparr>calls := (calls s)(i := ResetSkipped d)\<rparr>"
  | (ResetReturn) i d where "e = ResetReturn i" "\<not> crashed s" "calls s i = ResetWait d"
      "wg s i = 0" "s' = s\<lparr>calls := (calls s)(i := ResetReturned d)\<rparr>"
  | (CallStop) i where "e = CallStop i" "\<not> crashed s" "calls s i = NotCalled"
      "s' = s\<lparr>stop := (stop s)\<lparr>requested := True\<rparr>, calls := (calls s)(i := StopWait)\<rparr>"
  | (StopReturn) i where "e = StopReturn i" "\<not> crashed s" "calls s i = StopWait"
      "done_closed (stop s)" "s' = s\<lparr>calls := (calls s)(i := StopReturned)\<rparr>"
  | (FastStop) "e = FastPath" "pc s = Top" "init_ready (stop s)" "s' = run_stop s"
  | (FastWait) "e = FastPath" "pc s = Top" "\<not> init_ready (stop s)" "s' = s\<lparr>pc := Waiting\<rparr>"
  | (RecvStop) "e = RecvStop" "pc s = Waiting" "init_ready (stop s)" "s' = run_stop s"
  | (RecvReset) i d where "e = RecvReset i" "pc s = Waiting" "calls s i = ResetSelect d"
      "s' = run_reset i d s"
  | (RecvTick) tm where "e = RecvTick tm" "pc s = Waiting" "ticker s \<noteq> None"
      "s' = s\<lparr>pc := Draining tm\<rparr>"
  | (DoDrain) tm where "e = DoDrain" "pc s = Draining tm" "s' = (drain s)\<lparr>pc := Sending tm\<rparr>"
  | (SendOk) tm where "e = DoSend" "pc s = Sending tm" "\<not> is_closed (chan_c s)"
      "length (buf (chan_c s)) < cap (chan_c s)"
      "s' = s\<lparr>chan_c := (chan_c s)\<lparr>buf := buf (chan_c s) @ [tm]\<rparr>, trace := trace s @ [Send tm],
              pc := Top\<rparr>"
  | (SendPanic) tm where "e = DoSend" "pc s = Sending tm" "is_closed (chan_c s)"
      "s' = s\<lparr>pc := Crashed SendOnClosedChannel\<rparr>"
  | (Consume) "e = Consume" "\<not> crashed s" "buf (chan_c s) \<noteq> [] \<or> is_closed (chan_c s)"
      "s' = s\<lparr>chan_c := (chan_c s)\<lparr>buf := tl (buf (chan_c s))\<rparr>\<rparr>"
proof (cases e)
  case (CallReset i d) then show ?thesis using assms that(1) by (auto split: if_splits)
next
  case (ResetSkip i) then show ?thesis using assms that(2) by (auto split: if_splits call.splits)
next
  case (ResetReturn i) then show ?thesis using assms that(3) by (auto split: if_splits call.splits)
next
  case (CallStop i) then show ?thesis using assms that(4)
    by (auto simp: CloseAndWait_request_def split: if_splits)
next
  case (StopReturn i) then show ?thesis using assms that(5)
    by (auto simp: CloseAndWait_returns_def split: if_splits)
next
  case FastPath then show ?thesis using assms that(6,7) by (auto split: if_splits)
next
  case RecvStop then show ?thesis using assms that(8) by (auto split: if_splits)
next
  case (RecvReset i) then show ?thesis using assms that(9) by (auto split: if_splits call.splits)
next
  case (RecvTick tm) then show ?thesis using assms that(10) by (auto split: if_splits)
next
  case DoDrain then show ?thesis using assms that(11) by (auto split: loop_pc.splits)
next
  case DoSend then show ?thesis using assms that(12,13)
    by (auto simp: chan_send_def split: loop_pc.splits if_splits)
next
  case Consume then show ?thesis using assms that(14)
    by (auto simp: chan_recv_def split: if_splits list.splits)
qed

lemma sent_append [simp]: "sent (xs @ ys) = sent xs @ sent ys"
  by (induction xs rule: sent.induct) simp_all

lemma acts_simps [simp]:
  "ResetAck i \<notin> set (drain_acts b s)" "ResetAck i \<notin> set (clock_acts d s)"
  "count_list (drain_acts b s) StopAck = 0" "count_list (clock_acts d s) StopAck = 0"
  "sent (drain_acts b s) = []" "sent (clock_acts d s) = []"
  by (auto simp: drain_acts_def clock_acts_def split: option.splits)

lemma call_invD:
  assumes "call_inv s"
  shows "calls s i = NotCalled \<Longrightarrow> ResetAck i \<notin> set (trace s)"
    "calls s i = ResetSelect d \<Longrightarrow> wg s i = 1 \<and> ResetAck i \<notin> set (trace s)"
    "calls s i = ResetWait d \<Longrightarrow>
       (0 \<le> d \<and> wg s i = 0 \<and> ResetAck i \<in> set (trace s)) \<or>
       (d < 0 \<and> crashed s \<and> wg s i = 1 \<and> ResetAck i \<notin> set (trace s))"
    "calls s i = ResetSkipped d \<Longrightarrow> pc s = Returned \<and> ResetAck i \<notin> set (trace s)"
    "calls s i = ResetReturned d \<Longrightarrow> 0 \<le> d \<and> ResetAck i \<in> set (trace s)"
    "calls s i = StopWait \<Longrightarrow> requested (stop s)"
    "calls s i = StopReturned \<Longrightarrow> pc s = Returned"
  using assms[unfolded call_inv_def call_ok_def, rule_format, of i] by simp_all

lemma call_inv_wait:
  assumes "call_inv s" "calls s i = ResetWait d" "\<not> crashed s \<or> 0 \<le> d"
  shows "0 \<le> d" "wg s i = 0" "ResetAck i \<in> set (trace s)"
  using call_invD(3)[OF assms(1,2)] assms(3) by auto

lemma step_not_crashed: "step e s = Some s' \<Longrightarrow> \<not> crashed s"
  by (cases rule: step_cases) (simp_all add: crashed_def)

lemma crashed_pc [simp]:
  "pc s = Top \<Longrightarrow> \<not> crashed s" "pc s = Waiting \<Longrightarrow> \<not> crashed s"
  "pc s = Draining tm \<Longrightarrow> \<not> crashed s" "pc s = Sending tm \<Longrightarrow> \<not> crashed s"
  "pc s = Returned \<Longrightarrow> \<not> crashed s" "pc s = Crashed f \<Longrightarrow> crashed s"
  by (simp_all add: crashed_def)

lemma crashed_same: "pc s' = pc s \<Longrightarrow> crashed s' = crashed s"
  by (simp add: crashed_def)

lemma invariant_init:
  assumes "NewTicker_cfg cf d = Inr s0"
  shows "invariant s0"
proof -
  let ?e = "\<lparr>cfg = cf, chan_c = make_chan 1, stop = NewShutdown, ticker = None, clocks = [],
        wg = (\<lambda>_. 0), calls = (\<lambda>_. NotCalled), pc = Top, trace = []\<rparr>"
  have n: "newTicker d ?e = Inr s0"
    using assms by (simp add: NewTicker_cfg_def split: sum.splits prod.splits)
  have ci: "clock_inv ?e" by (simp add: clock_inv_def live_clocks_def)
  have "chan_inv s0"
    using newTicker_frame[OF n] by (simp add: chan_inv_def make_chan_def)
  moreover have "clock_ok s0"
    using newTicker_clock_inv[OF ci n] newTicker_frame(6)[OF n]
    by (simp add: clock_ok_def crashed_def)
  moreover have "stop_inv s0"
    using newTicker_frame[OF n] newTicker_trace'[OF n]
    by (simp add: stop_inv_def NewShutdown_def)
  moreover have "call_inv s0"
    using newTicker_frame[OF n] newTicker_trace'[OF n]
    by (simp add: call_inv_def call_ok_def)
  ultimately show ?thesis by (simp add: invariant_def)
qed

lemma tl_short: "length xs \<le> Suc 0 \<Longrightarrow> tl xs = []"
  by (cases xs) auto

lemma open_while_running: "chan_inv s \<Longrightarrow> pc s \<noteq> Returned \<Longrightarrow> \<not> is_closed (chan_c s)"
  by (auto simp: chan_inv_def)

section \<open>The invariants hold in every execution\<close>

lemma chan_invI:
  assumes "cap (chan_c s) = 1" "length (buf (chan_c s)) \<le> 1"
    "\<And>tm. pc s = Sending tm \<Longrightarrow> buf (chan_c s) = []"
    "is_closed (chan_c s) \<Longrightarrow> pc s = Returned"
    "\<And>f. pc s = Crashed f \<Longrightarrow> f = NonPositiveInterval"
  shows "chan_inv s"
  using assms unfolding chan_inv_def by blast

lemma chan_invD:
  assumes "chan_inv s"
  shows "cap (chan_c s) = 1" "length (buf (chan_c s)) \<le> 1"
    "pc s = Sending tm \<Longrightarrow> buf (chan_c s) = []"
    "is_closed (chan_c s) \<Longrightarrow> pc s = Returned"
    "pc s = Crashed f \<Longrightarrow> f = NonPositiveInterval"
  using assms unfolding chan_inv_def by blast+

lemma chan_inv_same:
  assumes "chan_inv s" "chan_c s' = chan_c s" "pc s' = pc s"
  shows "chan_inv s'"
  using assms by (simp add: chan_inv_def)

lemma length_tl_le: "length xs \<le> n \<Longrightarrow> length (tl xs) \<le> n"
  by (cases xs) auto

lemma step_chan_inv:
  assumes "invariant s" "step e s = Some s'"
  shows "chan_inv s'"
proof -
  have c: "chan_inv s" and k: "call_inv s" using assms(1) by (simp_all add: invariant_def)
  note cd = chan_invD[OF c]
  from assms(2) show ?thesis
  proof (cases rule: step_cases)
    case (CallReset i d)
    then show ?thesis using c by (intro chan_inv_same[OF c]) simp_all
  next
    case (ResetSkip i d)
    then show ?thesis using c by (intro chan_inv_same[OF c]) simp_all
  next
    case (ResetReturn i d)
    then show ?thesis using c by (intro chan_inv_same[OF c]) simp_all
  next
    case (CallStop i)
    then show ?thesis using c by (intro chan_inv_same[OF c]) simp_all
  next
    case (StopReturn i)
    then show ?thesis using c by (intro chan_inv_same[OF c]) simp_all
  next
    case (FastStop)
    have o: "\<not> is_closed (chan_c s)" using open_while_running[OF c] FastStop(2) by simp
    show ?thesis unfolding FastStop(4)
      using cd(1,2) by (intro chan_invI) (simp_all add: run_stop_fields[OF o] length_tl_le)
  next
    case (FastWait)
    have o: "\<not> is_closed (chan_c s)" using open_while_running[OF c] FastWait(2) by simp
    show ?thesis unfolding FastWait(4)
      using cd(1,2) o by (intro chan_invI) simp_all
  next
    case (RecvStop)
    have o: "\<not> is_closed (chan_c s)" using open_while_running[OF c] RecvStop(2) by simp
    show ?thesis unfolding RecvStop(4)
      using cd(1,2) by (intro chan_invI) (simp_all add: run_stop_fields[OF o] length_tl_le)
  next
    case (RecvReset i d)
    have o: "\<not> is_closed (chan_c s)" using open_while_running[OF c] RecvReset(2) by simp
    show ?thesis
    proof (cases "d < 0")
      case True
      show ?thesis unfolding RecvReset(4)
        using cd(1,2) o
        by (intro chan_invI) (simp_all add: run_reset_neg[OF True] length_tl_le)
    next
      case False
      then have d: "0 \<le> d" by simp
      have w: "wg s i \<noteq> 0" using call_invD(2)[OF k RecvReset(3)] by simp
      show ?thesis unfolding RecvReset(4)
        using cd(1,2) o by (intro chan_invI) (simp_all add: run_reset_fields[OF d w] length_tl_le)
    qed
  next
    case (RecvTick tm)
    have o: "\<not> is_closed (chan_c s)" using open_while_running[OF c] RecvTick(2) by simp
    show ?thesis unfolding RecvTick(4)
      using cd(1,2) o by (intro chan_invI) simp_all
  next
    case (DoDrain tm)
    have o: "\<not> is_closed (chan_c s)" using open_while_running[OF c] DoDrain(2) by simp
    show ?thesis unfolding DoDrain(3)
      using cd(1,2) o by (intro chan_invI) (simp_all add: drain_chan tl_short)
  next
    case (SendOk tm)
    show ?thesis unfolding SendOk(5)
      using cd(1,2) cd(3)[OF SendOk(2)] SendOk(3) by (intro chan_invI) simp_all
  next
    case (SendPanic tm)
    then show ?thesis using cd(4) by simp
  next
    case Consume
    show ?thesis unfolding Consume(4)
      using cd by (intro chan_invI) (simp_all add: length_tl_le)
  qed
qed

lemma clock_inv_same:
  assumes "clock_inv s" "ticker s' = ticker s" "clocks s' = clocks s"
  shows "clock_inv s'"
  using assms by (simp add: clock_inv_def live_clocks_def)

lemma clock_inv_of_ok: "clock_ok s \<Longrightarrow> \<not> crashed s \<Longrightarrow> clock_inv s"
  by (simp add: clock_ok_def)

lemma clock_ok_running: "clock_inv s \<Longrightarrow> \<not> crashed s \<Longrightarrow> clock_ok s"
  by (simp add: clock_ok_def)

lemma clock_ok_same:
  assumes "clock_ok s" "ticker s' = ticker s" "clocks s' = clocks s" "pc s' = pc s"
  shows "clock_ok s'"
proof -
  have "live_clocks s' = live_clocks s" "crashed s' = crashed s"
    using assms(2-4) by (simp_all add: live_clocks_def crashed_def)
  then show ?thesis using assms(1,2) by (auto simp: clock_ok_def clock_inv_def split: if_splits)
qed

lemma stopped_live: "clock_inv s \<Longrightarrow> clocks s' = stopped_clocks s \<Longrightarrow> live_clocks s' = []"
  using stopped_clocks_off[of s] by (simp add: live_clocks_def filter_empty_conv)

lemma live_clocks_le: "clock_ok s \<Longrightarrow> length (live_clocks s) \<le> 1"
  by (simp add: clock_ok_def clock_inv_def split: if_splits option.splits)

lemma step_clock_ok:
  assumes "invariant s" "step e s = Some s'"
  shows "clock_ok s'"
proof -
  have c: "chan_inv s" and k: "call_inv s" and co: "clock_ok s"
    using assms(1) by (simp_all add: invariant_def)
  have nc: "\<not> crashed s" using step_not_crashed[OF assms(2)] .
  have ci: "clock_inv s" using clock_inv_of_ok[OF co nc] .
  from assms(2) show ?thesis
  proof (cases rule: step_cases)
    case (FastStop)
    have o: "\<not> is_closed (chan_c s)" using open_while_running[OF c] FastStop(2) by simp
    show ?thesis unfolding FastStop(4)
      by (rule clock_ok_running, rule clock_inv_after(2)[OF ci, of _ 0])
         (simp_all add: run_stop_fields[OF o])
  next
    case (FastWait)
    show ?thesis unfolding FastWait(4)
      by (rule clock_ok_running, rule clock_inv_same[OF ci]) simp_all
  next
    case (RecvStop)
    have o: "\<not> is_closed (chan_c s)" using open_while_running[OF c] RecvStop(2) by simp
    show ?thesis unfolding RecvStop(4)
      by (rule clock_ok_running, rule clock_inv_after(2)[OF ci, of _ 0])
         (simp_all add: run_stop_fields[OF o])
  next
    case (RecvReset i d)
    show ?thesis
    proof (cases "d < 0")
      case True
      have "live_clocks (run_reset i d s) = []"
        by (rule stopped_live[OF ci]) (simp add: run_reset_neg[OF True])
      then show ?thesis unfolding RecvReset(4)
        by (simp add: clock_ok_def run_reset_neg[OF True])
    next
      case False
      then have d: "0 \<le> d" by simp
      have w: "wg s i \<noteq> 0" using call_invD(2)[OF k RecvReset(3)] by simp
      show ?thesis unfolding RecvReset(4)
        by (rule clock_ok_running, rule clock_inv_after(2)[OF ci, of _ d])
           (simp_all add: run_reset_fields[OF d w])
    qed
  next
    case (RecvTick tm)
    show ?thesis unfolding RecvTick(4)
      by (rule clock_ok_running, rule clock_inv_same[OF ci]) simp_all
  next
    case (DoDrain tm)
    show ?thesis unfolding DoDrain(3)
      by (rule clock_ok_running, rule clock_inv_same[OF ci]) (simp_all add: drain_frame)
  next
    case (SendOk tm)
    show ?thesis unfolding SendOk(5)
      by (rule clock_ok_running, rule clock_inv_same[OF ci]) simp_all
  next
    case (SendPanic tm)
    then show ?thesis using chan_invD(4)[OF c] by simp
  qed (simp_all add: clock_ok_same[OF co])
qed

lemma stop_invD:
  assumes "stop_inv s"
  shows "init_taken (stop s) \<longleftrightarrow> pc s = Returned" "done_closed (stop s) \<longleftrightarrow> pc s = Returned"
    "pc s = Returned \<Longrightarrow> requested (stop s)" "pc s = Returned \<Longrightarrow> ticker s = None"
    "count_list (trace s) StopAck = (if pc s = Returned then 1 else 0)"
  using assms unfolding stop_inv_def by blast+

lemma stop_invI:
  assumes "init_taken (stop s) \<longleftrightarrow> pc s = Returned" "done_closed (stop s) \<longleftrightarrow> pc s = Returned"
    "pc s = Returned \<Longrightarrow> requested (stop s)" "pc s = Returned \<Longrightarrow> ticker s = None"
    "count_list (trace s) StopAck = (if pc s = Returned then 1 else 0)"
  shows "stop_inv s"
  using assms unfolding stop_inv_def by blast

lemma stop_inv_same:
  assumes "stop_inv s" "stop s' = stop s" "pc s' = pc s" "ticker s' = ticker s"
    "trace s' = trace s"
  shows "stop_inv s'"
  using assms by (simp add: stop_inv_def)

lemma stop_inv_run_stop:
  assumes "stop_inv s" "pc s \<noteq> Returned" "init_ready (stop s)" "\<not> is_closed (chan_c s)"
  shows "stop_inv (run_stop s)"
  using stop_invD[OF assms(1)] assms(2,3)
  by (intro stop_invI) (simp_all add: run_stop_fields[OF assms(4)] init_ready_def)

lemma step_stop_inv:
  assumes "invariant s" "step e s = Some s'"
  shows "stop_inv s'"
proof -
  have c: "chan_inv s" and k: "call_inv s" and si: "stop_inv s"
    using assms(1) by (simp_all add: invariant_def)
  note sd = stop_invD[OF si]
  from assms(2) show ?thesis
  proof (cases rule: step_cases)
    case (CallStop i)
    show ?thesis unfolding CallStop(4) using sd by (intro stop_invI) simp_all
  next
    case (FastStop)
    have o: "\<not> is_closed (chan_c s)" using open_while_running[OF c] FastStop(2) by simp
    show ?thesis unfolding FastStop(4)
      using FastStop(2,3) o by (intro stop_inv_run_stop[OF si]) simp_all
  next
    case (FastWait)
    show ?thesis unfolding FastWait(4) using sd FastWait(2) by (intro stop_invI) simp_all
  next
    case (RecvStop)
    have o: "\<not> is_closed (chan_c s)" using open_while_running[OF c] RecvStop(2) by simp
    show ?thesis unfolding RecvStop(4)
      using RecvStop(2,3) o by (intro stop_inv_run_stop[OF si]) simp_all
  next
    case (RecvReset i d)
    show ?thesis
    proof (cases "d < 0")
      case True
      show ?thesis unfolding RecvReset(4)
        using sd RecvReset(2) by (intro stop_invI) (simp_all add: run_reset_neg[OF True])
    next
      case False
      then have d: "0 \<le> d" by simp
      have w: "wg s i \<noteq> 0" using call_invD(2)[OF k RecvReset(3)] by simp
      show ?thesis unfolding RecvReset(4)
        using sd RecvReset(2) by (intro stop_invI) (simp_all add: run_reset_fields[OF d w])
    qed
  next
    case (RecvTick tm)
    show ?thesis unfolding RecvTick(4) using sd RecvTick(2) by (intro stop_invI) simp_all
  next
    case (DoDrain tm)
    show ?thesis unfolding DoDrain(3)
      using sd DoDrain(2) by (intro stop_invI) (simp_all add: drain_frame drain_trace)
  next
    case (SendOk tm)
    show ?thesis unfolding SendOk(5) using sd SendOk(2) by (intro stop_invI) simp_all
  next
    case (SendPanic tm)
    then show ?thesis using chan_invD(4)[OF c] by simp
  next
    case Consume
    show ?thesis unfolding Consume(4) by (rule stop_inv_same[OF si]) simp_all
  qed (simp_all add: stop_inv_same[OF si])
qed

lemma call_inv_mono:
  assumes "call_inv s" "\<not> crashed s" "calls s' = calls s" "wg s' = wg s"
    "\<And>i. ResetAck i \<in> set (trace s') \<longleftrightarrow> ResetAck i \<in> set (trace s)"
    "requested (stop s) \<Longrightarrow> requested (stop s')"
    "pc s = Returned \<Longrightarrow> pc s' = Returned"
  shows "call_inv s'"
  unfolding call_inv_def
proof
  fix i
  show "call_ok s' i (calls s' i)"
    using assms(1)[unfolded call_inv_def, rule_format, of i] assms(2-7)
    by (auto simp: call_ok_def split: call.splits)
qed

lemma call_inv_upd:
  assumes "call_inv s" "\<not> crashed s" "calls s' = (calls s)(i := c)"
    "\<And>j. j \<noteq> i \<Longrightarrow> wg s' j = wg s j"
    "\<And>j. j \<noteq> i \<Longrightarrow> ResetAck j \<in> set (trace s') \<longleftrightarrow> ResetAck j \<in> set (trace s)"
    "requested (stop s) \<Longrightarrow> requested (stop s')"
    "pc s = Returned \<Longrightarrow> pc s' = Returned"
    "call_ok s' i c"
  shows "call_inv s'"
  unfolding call_inv_def
proof
  fix j
  show "call_ok s' j (calls s' j)"
  proof (cases "j = i")
    case True
    show ?thesis unfolding True using assms(3,8) by simp
  next
    case False
    then show ?thesis
      using assms(1)[unfolded call_inv_def, rule_format, of j] assms(2,3) assms(4,5)[OF False]
        assms(6,7)
      by (auto simp: call_ok_def split: call.splits)
  qed
qed

lemma step_call_inv:
  assumes "invariant s" "step e s = Some s'"
  shows "call_inv s'"
proof -
  have c: "chan_inv s" and k: "call_inv s" and si: "stop_inv s"
    using assms(1) by (simp_all add: invariant_def)
  note sd = stop_invD[OF si]
  have nc: "\<not> crashed s" using step_not_crashed[OF assms(2)] .
  from assms(2) show ?thesis
  proof (cases rule: step_cases)
    case (CallReset i d)
    show ?thesis unfolding CallReset(4)
      using call_invD(1)[OF k CallReset(3)]
      by (intro call_inv_upd[OF k nc, of _ i "ResetSelect d"]) (simp_all add: call_ok_def)
  next
    case (ResetSkip i d)
    show ?thesis unfolding ResetSkip(5)
      using call_invD(2)[OF k ResetSkip(3)] ResetSkip(4) sd(2)
      by (intro call_inv_upd[OF k nc, of _ i "ResetSkipped d"]) (simp_all add: call_ok_def)
  next
    case (ResetReturn i d)
    show ?thesis unfolding ResetReturn(5)
      using call_inv_wait[OF k ResetReturn(3)] nc
      by (intro call_inv_upd[OF k nc, of _ i "ResetReturned d"]) (simp_all add: call_ok_def)
  next
    case (CallStop i)
    show ?thesis unfolding CallStop(4)
      by (intro call_inv_upd[OF k nc, of _ i "StopWait"]) (simp_all add: call_ok_def)
  next
    case (StopReturn i)
    show ?thesis unfolding StopReturn(5)
      using StopReturn(4) sd(2)
      by (intro call_inv_upd[OF k nc, of _ i "StopReturned"]) (simp_all add: call_ok_def)
  next
    case (FastStop)
    have o: "\<not> is_closed (chan_c s)" using open_while_running[OF c] FastStop(2) by simp
    show ?thesis unfolding FastStop(4)
      by (rule call_inv_mono[OF k nc]) (simp_all add: run_stop_fields[OF o])
  next
    case (FastWait)
    show ?thesis unfolding FastWait(4)
      using FastWait(2) by (intro call_inv_mono[OF k nc]) (simp_all add: call_ok_def)
  next
    case (RecvStop)
    have o: "\<not> is_closed (chan_c s)" using open_while_running[OF c] RecvStop(2) by simp
    show ?thesis unfolding RecvStop(4)
      by (rule call_inv_mono[OF k nc]) (simp_all add: run_stop_fields[OF o])
  next
    case (RecvReset i d)
    show ?thesis
    proof (cases "d < 0")
      case True
      have w: "wg s i = 1" "ResetAck i \<notin> set (trace s)"
        using call_invD(2)[OF k RecvReset(3)] by simp_all
      show ?thesis unfolding RecvReset(4)
        using RecvReset(2) w True
        by (intro call_inv_upd[OF k nc, of _ i "ResetWait d"])
           (simp_all add: run_reset_neg[OF True] call_ok_def)
    next
      case False
      then have d: "0 \<le> d" by simp
      have w: "wg s i = 1" using call_invD(2)[OF k RecvReset(3)] by simp
      then have w': "wg s i \<noteq> 0" by simp
      show ?thesis unfolding RecvReset(4)
        using RecvReset(2) w d
        by (intro call_inv_upd[OF k nc, of _ i "ResetWait d"])
           (simp_all add: run_reset_fields[OF d w'] call_ok_def)
    qed
  next
    case (RecvTick tm)
    show ?thesis unfolding RecvTick(4)
      using RecvTick(2) by (intro call_inv_mono[OF k nc]) (simp_all add: call_ok_def)
  next
    case (DoDrain tm)
    show ?thesis unfolding DoDrain(3)
      using DoDrain(2) by (intro call_inv_mono[OF k nc]) (simp_all add: drain_frame drain_trace)
  next
    case (SendOk tm)
    show ?thesis unfolding SendOk(5)
      using SendOk(2) by (intro call_inv_mono[OF k nc]) (simp_all add: call_ok_def)
  next
    case (SendPanic tm)
    then show ?thesis using chan_invD(4)[OF c] by simp
  next
    case Consume
    show ?thesis unfolding Consume(4) by (rule call_inv_mono[OF k nc]) (simp_all add: call_ok_def)
  qed
qed

lemma step_invariant: "invariant s \<Longrightarrow> step e s = Some s' \<Longrightarrow> invariant s'"
  using step_chan_inv step_clock_ok step_stop_inv step_call_inv
  unfolding invariant_def by blast

lemma run_invariant: "invariant s \<Longrightarrow> run es s = Some s' \<Longrightarrow> invariant s'"
proof (induction es arbitrary: s)
  case Nil
  then show ?case by simp
next
  case (Cons e es)
  then obtain s1 where s1: "step e s = Some s1" "run es s1 = Some s'"
    by (auto split: option.splits)
  show ?case using Cons.IH[OF step_invariant[OF Cons.prems(1) s1(1)] s1(2)] .
qed

lemma execution_invariant: "execution cf d es = Some s \<Longrightarrow> invariant s"
proof -
  assume a: "execution cf d es = Some s"
  then obtain s0 where s0: "NewTicker_cfg cf d = Inr s0" "run es s0 = Some s"
    by (auto simp: execution_def split: sum.splits)
  show ?thesis using run_invariant[OF invariant_init[OF s0(1)] s0(2)] .
qed

section \<open>The claims\<close>

lemma example_cfg_simps [simp]:
  "CloseOnStop keep_cfg = False" "DropTickOnReset keep_cfg = False" "DropTickOnStop keep_cfg = False"
  "CloseOnStop drop_cfg = False" "DropTickOnReset drop_cfg = True" "DropTickOnStop drop_cfg = False"
  "CloseOnStop close_cfg = True" "DropTickOnReset close_cfg = False" "DropTickOnStop close_cfg = False"
  "CloseOnStop close_drop_cfg = True" "DropTickOnReset close_drop_cfg = False"
  "DropTickOnStop close_drop_cfg = True"
  by (simp_all add: keep_cfg_def drop_cfg_def close_cfg_def close_drop_cfg_def)

lemmas eval_defs = execution_def NewTicker_cfg_def NewTicker_def newTicker_def make_chan_def
  NewShutdown_def crashed_def init_ready_def run_reset_def run_stop_def handleReset_def
  handleStop_def Let_def prim_defs

lemma send_enabled:
  assumes "invariant s" "pc s = Sending tm"
  shows "step DoSend s =
    Some (s\<lparr>chan_c := (chan_c s)\<lparr>buf := [tm]\<rparr>, trace := trace s @ [Send tm], pc := Top\<rparr>)"
proof -
  have c: "chan_inv s" using assms(1) by (simp add: invariant_def)
  have "\<not> is_closed (chan_c s)" using chan_invD(4)[OF c] assms(2) by auto
  then show ?thesis
    using chan_invD(1)[OF c] chan_invD(3)[OF c assms(2)] assms(2)
    by (simp add: chan_send_def)
qed

lemma drain_empties:
  assumes "invariant s"
  shows "buf (chan_c (drain s)) = []"
  using assms chan_invD(2)[of s] by (simp add: invariant_def drain_chan tl_short)

lemma tick_handled:
  assumes "invariant s" "pc s = Waiting" "ticker s \<noteq> None"
  shows "run [RecvTick tm, DoDrain, DoSend] s =
     Some (s\<lparr>chan_c := (chan_c s)\<lparr>buf := [tm]\<rparr>,
             trace := trace s @ drain_acts True s @ [Send tm], pc := Top\<rparr>)"
proof -
  let ?s1 = "s\<lparr>pc := Draining tm\<rparr>"
  let ?s2 = "(drain ?s1)\<lparr>pc := Sending tm\<rparr>"
  have 1: "step (RecvTick tm) s = Some ?s1" using assms(2,3) by simp
  have 2: "step DoDrain ?s1 = Some ?s2" by simp
  have i2: "invariant ?s2"
    using step_invariant[OF step_invariant[OF assms(1) 1] 2] .
  have d: "drain ?s1 = (drain s)\<lparr>pc := Draining tm\<rparr>"
    by (simp add: drain_def split: option.splits)
  have 3: "step DoSend ?s2 =
     Some (?s2\<lparr>chan_c := (chan_c ?s2)\<lparr>buf := [tm]\<rparr>, trace := trace ?s2 @ [Send tm], pc := Top\<rparr>)"
    by (rule send_enabled[OF i2]) simp
  have c: "(chan_c (drain s))\<lparr>buf := [tm]\<rparr> = (chan_c s)\<lparr>buf := [tm]\<rparr>"
    by (simp add: drain_def chan_recv_def split: list.splits)
  have e: "?s2\<lparr>chan_c := (chan_c ?s2)\<lparr>buf := [tm]\<rparr>, trace := trace ?s2 @ [Send tm], pc := Top\<rparr> =
      s\<lparr>chan_c := (chan_c s)\<lparr>buf := [tm]\<rparr>,
        trace := trace s @ drain_acts True s @ [Send tm], pc := Top\<rparr>"
    unfolding d using c
    by (simp add: drain_def chan_recv_def drain_acts_def split: list.splits)
  show ?thesis using 1 2 3 e by simp
qed

text \<open>
  C1. In every state of every execution the output channel has capacity one and holds at
  most one timestamp. A clock fire is handled by the two statements \<open>t.drain()\<close> and
  \<open>t.c <- tick\<close>, in that order: taken without interruption from the \<open>select\<close>, they
  first discard what was buffered and then leave exactly the new timestamp in the buffer.
  Whatever the consumers do in between: whenever the loop is about to drain, the drain
  leaves the buffer empty, and whenever the loop is about to send, the buffer is empty, so
  that the send is enabled, does not panic, and leaves the new timestamp in the buffer.
\<close>

theorem tick_delivery_never_blocks:
  assumes "execution cf d es = Some s"
  shows "cap (chan_c s) = 1 \<and> length (buf (chan_c s)) \<le> 1 \<and>
    (\<forall>tm. pc s = Waiting \<and> ticker s \<noteq> None \<longrightarrow>
       run [RecvTick tm, DoDrain, DoSend] s =
         Some (s\<lparr>chan_c := (chan_c s)\<lparr>buf := [tm]\<rparr>,
                 trace := trace s @ drain_acts True s @ [Send tm], pc := Top\<rparr>)) \<and>
    (\<forall>tm. pc s = Draining tm \<longrightarrow>
       (\<exists>s1. step DoDrain s = Some s1 \<and> pc s1 = Sending tm \<and> buf (chan_c s1) = [] \<and>
             trace s1 = trace s @ drain_acts True s)) \<and>
    (\<forall>tm. pc s = Sending tm \<longrightarrow>
       buf (chan_c s) = [] \<and>
       (\<exists>s2. step DoSend s = Some s2 \<and> pc s2 = Top \<and> buf (chan_c s2) = [tm] \<and>
             trace s2 = trace s @ [Send tm]))"
proof -
  have i: "invariant s" using execution_invariant[OF assms] .
  then have c: "chan_inv s" by (simp add: invariant_def)
  have "\<forall>tm. pc s = Draining tm \<longrightarrow>
       (\<exists>s1. step DoDrain s = Some s1 \<and> pc s1 = Sending tm \<and> buf (chan_c s1) = [] \<and>
             trace s1 = trace s @ drain_acts True s)"
    by (simp add: drain_empties[OF i] drain_trace)
  moreover have "\<forall>tm. pc s = Sending tm \<longrightarrow>
       buf (chan_c s) = [] \<and>
       (\<exists>s2. step DoSend s = Some s2 \<and> pc s2 = Top \<and> buf (chan_c s2) = [tm] \<and>
             trace s2 = trace s @ [Send tm])"
  proof (intro allI impI)
    fix tm assume p: "pc s = Sending tm"
    show "buf (chan_c s) = [] \<and>
       (\<exists>s2. step DoSend s = Some s2 \<and> pc s2 = Top \<and> buf (chan_c s2) = [tm] \<and>
             trace s2 = trace s @ [Send tm])"
      unfolding send_enabled[OF i p] using chan_invD(3)[OF c p] by simp
  qed
  moreover have "\<forall>tm. pc s = Waiting \<and> ticker s \<noteq> None \<longrightarrow>
       run [RecvTick tm, DoDrain, DoSend] s =
         Some (s\<lparr>chan_c := (chan_c s)\<lparr>buf := [tm]\<rparr>,
                 trace := trace s @ drain_acts True s @ [Send tm], pc := Top\<rparr>)"
    using tick_handled[OF i] by blast
  ultimately show ?thesis using chan_invD(1,2)[OF c] by blast
qed

theorem tick_delivery_never_blocks_witness:
  "pc (the (execution keep_cfg 5 [FastPath, RecvTick 7, DoDrain, DoSend, FastPath])) = Waiting \<and>
   ticker (the (execution keep_cfg 5 [FastPath, RecvTick 7, DoDrain, DoSend, FastPath])) = Some 0 \<and>
   buf (chan_c (the (execution keep_cfg 5 [FastPath, RecvTick 7, DoDrain, DoSend, FastPath]))) = [7] \<and>
   (\<exists>s3. run [RecvTick 9, DoDrain, DoSend]
           (the (execution keep_cfg 5 [FastPath, RecvTick 7, DoDrain, DoSend, FastPath])) = Some s3 \<and>
      buf (chan_c s3) = [9] \<and>
      trace s3 = [ClockStart 0 5, Drain None, Send 7, Drain (Some 7), Send 9]) \<and>
   pc (the (execution keep_cfg 5 [FastPath, RecvTick 7, DoDrain, DoSend, FastPath, RecvTick 9])) = Draining 9 \<and>
   (\<exists>s1. step DoDrain (the (execution keep_cfg 5 [FastPath, RecvTick 7, DoDrain, DoSend, FastPath, RecvTick 9])) = Some s1 \<and>
      pc s1 = Sending 9 \<and> buf (chan_c s1) = []) \<and>
   pc (the (execution keep_cfg 5
        [FastPath, RecvTick 7, DoDrain, DoSend, FastPath, RecvTick 9, DoDrain])) = Sending 9 \<and>
   (\<exists>s2. step DoSend (the (execution keep_cfg 5
        [FastPath, RecvTick 7, DoDrain, DoSend, FastPath, RecvTick 9, DoDrain])) = Some s2 \<and>
      pc s2 = Top \<and> buf (chan_c s2) = [9])"
proof -
  let ?e0 = "execution keep_cfg 5 [FastPath, RecvTick 7, DoDrain, DoSend, FastPath]"
  let ?e1 = "execution keep_cfg 5 [FastPath, RecvTick 7, DoDrain, DoSend, FastPath, RecvTick 9]"
  let ?e2 = "execution keep_cfg 5
        [FastPath, RecvTick 7, DoDrain, DoSend, FastPath, RecvTick 9, DoDrain]"
  have e0: "?e0 = Some (the ?e0)" by (simp add: eval_defs)
  have p0: "pc (the ?e0) = Waiting" "ticker (the ?e0) = Some 0" "buf (chan_c (the ?e0)) = [7]"
    "trace (the ?e0) = [ClockStart 0 5, Drain None, Send 7]"
    "drain_acts True (the ?e0) = [Drain (Some 7)]"
    by (simp_all add: eval_defs drain_acts_def)
  note w0 = tick_delivery_never_blocks[OF e0, THEN conjunct2, THEN conjunct2, THEN conjunct1,
      rule_format, of 9]
  have r0: "\<exists>s3. run [RecvTick 9, DoDrain, DoSend] (the ?e0) = Some s3 \<and>
      buf (chan_c s3) = [9] \<and>
      trace s3 = [ClockStart 0 5, Drain None, Send 7, Drain (Some 7), Send 9]"
    using w0 p0 by simp
  have e1: "?e1 = Some (the ?e1)" by (simp add: eval_defs)
  have p1: "pc (the ?e1) = Draining 9" by (simp add: eval_defs)
  note w1 = tick_delivery_never_blocks[OF e1, THEN conjunct2, THEN conjunct2, THEN conjunct2,
      THEN conjunct1, rule_format, OF p1]
  have r1: "\<exists>s1. step DoDrain (the ?e1) = Some s1 \<and> pc s1 = Sending 9 \<and> buf (chan_c s1) = []"
    using w1 by blast
  have e2: "?e2 = Some (the ?e2)" by (simp add: eval_defs)
  have p2: "pc (the ?e2) = Sending 9" by (simp add: eval_defs)
  note w2 = tick_delivery_never_blocks[OF e2, THEN conjunct2, THEN conjunct2, THEN conjunct2,
      THEN conjunct2, rule_format, OF p2]
  have r2: "\<exists>s2. step DoSend (the ?e2) = Some s2 \<and> pc s2 = Top \<and> buf (chan_c s2) = [9]"
    using w2 by blast
  show ?thesis by (intro conjI) (rule p0(1) p0(2) p0(3) r0 p1 r1 p2 r2)+
qed

lemma step_cfg:
  assumes "invariant s" "step e s = Some s'"
  shows "cfg s' = cfg s"
proof -
  have c: "chan_inv s" and k: "call_inv s" using assms(1) by (simp_all add: invariant_def)
  from assms(2) show ?thesis
  proof (cases rule: step_cases)
    case (FastStop)
    have o: "\<not> is_closed (chan_c s)" using open_while_running[OF c] FastStop(2) by simp
    show ?thesis unfolding FastStop(4) by (simp add: run_stop_fields[OF o])
  next
    case (RecvStop)
    have o: "\<not> is_closed (chan_c s)" using open_while_running[OF c] RecvStop(2) by simp
    show ?thesis unfolding RecvStop(4) by (simp add: run_stop_fields[OF o])
  next
    case (RecvReset i d)
    show ?thesis
    proof (cases "d < 0")
      case True
      show ?thesis unfolding RecvReset(4) by (simp add: run_reset_neg[OF True])
    next
      case False
      then have d: "0 \<le> d" by simp
      have w: "wg s i \<noteq> 0" using call_invD(2)[OF k RecvReset(3)] by simp
      show ?thesis unfolding RecvReset(4) by (simp add: run_reset_fields[OF d w])
    qed
  next
    case (DoDrain tm)
    show ?thesis unfolding DoDrain(3) by (simp add: drain_frame)
  qed simp_all
qed

lemma run_cfg: "invariant s \<Longrightarrow> run es s = Some s' \<Longrightarrow> cfg s' = cfg s"
proof (induction es arbitrary: s)
  case Nil
  then show ?case by simp
next
  case (Cons e es)
  then obtain s1 where s1: "step e s = Some s1" "run es s1 = Some s'"
    by (auto split: option.splits)
  show ?case
    using Cons.IH[OF step_invariant[OF Cons.prems(1) s1(1)] s1(2)] step_cfg[OF Cons.prems(1) s1(1)]
    by simp
qed

lemma execution_cfg: "execution cf d es = Some s \<Longrightarrow> cfg s = cf"
proof -
  assume a: "execution cf d es = Some s"
  then obtain s0 where s0: "NewTicker_cfg cf d = Inr s0" "run es s0 = Some s"
    by (auto simp: execution_def split: sum.splits)
  have "cfg s0 = cf" using newTicker_frame(1)[of d _ s0] s0(1)
    by (simp add: NewTicker_cfg_def split: sum.splits prod.splits)
  then show ?thesis using run_cfg[OF invariant_init[OF s0(1)] s0(2)] by simp
qed

lemma step_stopped:
  assumes "pc s = Returned" "step e s = Some s'"
  shows "pc s' = Returned \<and> trace s' = trace s \<and> suffix (buf (chan_c s')) (buf (chan_c s)) \<and>
         is_closed (chan_c s') = is_closed (chan_c s) \<and> ticker s' = ticker s \<and>
         clocks s' = clocks s"
  using assms(2)
proof (cases rule: step_cases)
  case Consume
  then show ?thesis using assms(1) by (simp add: suffix_tl)
qed (use assms(1) in simp_all)

lemma run_stopped:
  assumes "pc s = Returned" "run es s = Some s'"
  shows "pc s' = Returned \<and> trace s' = trace s \<and> suffix (buf (chan_c s')) (buf (chan_c s)) \<and>
         is_closed (chan_c s') = is_closed (chan_c s) \<and> ticker s' = ticker s \<and>
         clocks s' = clocks s"
  using assms
proof (induction es arbitrary: s)
  case Nil
  then show ?case by simp
next
  case (Cons e es)
  then obtain s1 where s1: "step e s = Some s1" "run es s1 = Some s'"
    by (auto split: option.splits)
  have a: "pc s1 = Returned \<and> trace s1 = trace s \<and> suffix (buf (chan_c s1)) (buf (chan_c s)) \<and>
         is_closed (chan_c s1) = is_closed (chan_c s) \<and> ticker s1 = ticker s \<and>
         clocks s1 = clocks s"
    using step_stopped[OF Cons.prems(1) s1(1)] .
  then have b: "pc s' = Returned \<and> trace s' = trace s1 \<and> suffix (buf (chan_c s')) (buf (chan_c s1)) \<and>
         is_closed (chan_c s') = is_closed (chan_c s1) \<and> ticker s' = ticker s1 \<and>
         clocks s' = clocks s1"
    using Cons.IH[OF _ s1(2)] by blast
  show ?case using a b suffix_order.trans by auto
qed

text \<open>
  C2. Once the control loop has processed a stop request (its program counter is
  \<open>Returned\<close>), and in particular once some call of \<open>Stop\<close> has returned, whatever the
  callers and consumers do afterwards, the loop stays terminated, the history gains no
  action at all (so no timestamp is sent), and the buffer of the output channel can only
  lose what it held: nothing new appears on the channel.
\<close>

theorem no_ticks_after_stop:
  assumes "execution cf d es = Some s"
    and "pc s = Returned \<or> calls s i = StopReturned"
    and "run es' s = Some s'"
  shows "pc s' = Returned \<and> trace s' = trace s \<and> sent (trace s') = sent (trace s) \<and>
         suffix (buf (chan_c s')) (buf (chan_c s))"
proof -
  have k: "call_inv s" using execution_invariant[OF assms(1)] by (simp add: invariant_def)
  have p: "pc s = Returned" using assms(2) call_invD(7)[OF k] by blast
  show ?thesis using run_stopped[OF p assms(3)] by simp
qed

theorem no_ticks_after_stop_witness:
  "calls (the (execution keep_cfg 5 [FastPath, RecvTick 7, DoDrain, DoSend, CallStop 1, FastPath, StopReturn 1])) 1 = StopReturned \<and>
   buf (chan_c (the (execution keep_cfg 5 [FastPath, RecvTick 7, DoDrain, DoSend, CallStop 1, FastPath, StopReturn 1]))) = [7] \<and>
   (\<exists>s'. run [CallReset 2 3, ResetSkip 2, CallStop 3, StopReturn 3, Consume]
        (the (execution keep_cfg 5 [FastPath, RecvTick 7, DoDrain, DoSend, CallStop 1, FastPath, StopReturn 1])) = Some s' \<and>
      pc s' = Returned \<and> sent (trace s') = [7] \<and> buf (chan_c s') = [])"
proof -
  let ?cf = "keep_cfg"
  let ?e = "execution ?cf 5 [FastPath, RecvTick 7, DoDrain, DoSend, CallStop 1, FastPath, StopReturn 1]"
  let ?r = "run [CallReset 2 3, ResetSkip 2, CallStop 3, StopReturn 3, Consume] (the ?e)"
  have e: "?e = Some (the ?e)" by (simp add: eval_defs)
  have c: "calls (the ?e) 1 = StopReturned" by (simp add: eval_defs)
  have b: "buf (chan_c (the ?e)) = [7]" by (simp add: eval_defs)
  have t: "sent (trace (the ?e)) = [7]" by (simp add: eval_defs)
  have r: "?r = Some (the ?r)" by (simp add: eval_defs)
  have b': "buf (chan_c (the ?r)) = []" by (simp add: eval_defs)
  have "pc (the ?r) = Returned \<and> sent (trace (the ?r)) = sent (trace (the ?e))"
    using no_ticks_after_stop[OF e _ r, of 1] c by simp
  then show ?thesis using c b t r b' by metis
qed

text \<open>
  C3. When the control loop takes a stop request, on the fast path or in its main
  \<open>select\<close>, the step succeeds and appends to the history, in this order: a drain exactly
  when \<open>DropTickOnStop\<close> is set, a close of the output channel exactly when
  \<open>CloseOnStop\<close> is set, the stop of the underlying clock when there is one, and last
  the acknowledgement to the callers of \<open>Stop\<close>. Afterwards the buffer is empty if
  \<open>DropTickOnStop\<close> is set and unchanged otherwise, the channel is closed exactly when
  \<open>CloseOnStop\<close> is set, no clock is running, and the loop has returned.
\<close>

theorem handleStop_order:
  assumes "execution cf d es = Some s"
    and "init_ready (stop s)"
    and "(e = FastPath \<and> pc s = Top) \<or> (e = RecvStop \<and> pc s = Waiting)"
  shows "\<exists>s'. step e s = Some s' \<and> pc s' = Returned \<and>
     trace s' = trace s @ drain_acts (DropTickOnStop cf) s @
                (if CloseOnStop cf then [Close] else []) @ clock_acts 0 s @ [StopAck] \<and>
     buf (chan_c s') = (if DropTickOnStop cf then [] else buf (chan_c s)) \<and>
     is_closed (chan_c s') = CloseOnStop cf \<and>
     ticker s' = None \<and> live_clocks s' = [] \<and> done_closed (stop s')"
proof -
  have i: "invariant s" using execution_invariant[OF assms(1)] .
  then have c: "chan_inv s" and co: "clock_ok s" by (simp_all add: invariant_def)
  have cf: "cfg s = cf" using execution_cfg[OF assms(1)] .
  have p: "pc s \<noteq> Returned" using assms(3) by auto
  have o: "\<not> is_closed (chan_c s)" using open_while_running[OF c p] .
  have st: "step e s = Some (run_stop s)" using assms(2,3) by auto
  have ci: "clock_inv s" using clock_inv_of_ok[OF co] assms(3) by auto
  have l: "live_clocks (run_stop s) = []"
    using clock_inv_after(1)[OF ci, of "run_stop s" 0] by (simp add: run_stop_fields[OF o])
  show ?thesis
    unfolding st using l chan_invD(2)[OF c]
    by (simp add: run_stop_fields[OF o] cf tl_short)
qed

theorem handleStop_order_witness:
  "init_ready (stop (the (execution close_drop_cfg 5 [FastPath, RecvTick 7, DoDrain, DoSend, FastPath, CallStop 1]))) \<and>
   pc (the (execution close_drop_cfg 5 [FastPath, RecvTick 7, DoDrain, DoSend, FastPath, CallStop 1])) = Waiting \<and>
   (\<exists>s'. step RecvStop (the (execution close_drop_cfg 5 [FastPath, RecvTick 7, DoDrain, DoSend, FastPath, CallStop 1])) = Some s' \<and>
      trace s' = [ClockStart 0 5, Drain None, Send 7, Drain (Some 7), Close, ClockStop 0, StopAck] \<and>
      buf (chan_c s') = [] \<and> is_closed (chan_c s') \<and> live_clocks s' = [])"
proof -
  let ?cf = "close_drop_cfg"
  let ?e = "execution ?cf 5 [FastPath, RecvTick 7, DoDrain, DoSend, FastPath, CallStop 1]"
  have e: "?e = Some (the ?e)" by (simp add: eval_defs)
  have r: "init_ready (stop (the ?e))" by (simp add: eval_defs)
  have p: "pc (the ?e) = Waiting" by (simp add: eval_defs)
  have t: "trace (the ?e) = [ClockStart 0 5, Drain None, Send 7]" 
    "drain_acts True (the ?e) = [Drain (Some 7)]" "clock_acts 0 (the ?e) = [ClockStop 0]"
    by (simp_all add: eval_defs drain_acts_def clock_acts_def)
  show ?thesis
    using handleStop_order[OF e r, of RecvStop] r p t by auto
qed

lemma reset_applied:
  assumes "invariant s" "calls s i = ResetSelect d" "pc s = Waiting" "0 \<le> d"
  shows "step (RecvReset i) s = Some (run_reset i d s)"
    "pc (run_reset i d s) = Top" "cfg (run_reset i d s) = cfg s"
    "stop (run_reset i d s) = stop s"
    "wg (run_reset i d s) i = 0"
    "calls (run_reset i d s) = (calls s)(i := ResetWait d)"
    "ticker (run_reset i d s) = (if d = 0 then None else Some (length (clocks s)))"
    "live_clocks (run_reset i d s) = (if d = 0 then [] else [length (clocks s)])"
    "buf (chan_c (run_reset i d s)) = (if DropTickOnReset (cfg s) then [] else buf (chan_c s))"
    "cap (chan_c (run_reset i d s)) = cap (chan_c s)"
    "is_closed (chan_c (run_reset i d s)) = False"
    "trace (run_reset i d s) =
       trace s @ drain_acts (DropTickOnReset (cfg s)) s @ clock_acts d s @ [ResetAck i]"
proof -
  have c: "chan_inv s" and k: "call_inv s" and co: "clock_ok s"
    using assms(1) by (simp_all add: invariant_def)
  have ci: "clock_inv s" using clock_inv_of_ok[OF co] assms(3) by simp
  have w: "wg s i = 1" using call_invD(2)[OF k assms(2)] by simp
  then have w': "wg s i \<noteq> 0" by simp
  note f = run_reset_fields[OF assms(4) w']
  have o: "\<not> is_closed (chan_c s)" using open_while_running[OF c] assms(3) by simp
  show "step (RecvReset i) s = Some (run_reset i d s)" using assms(2,3) by simp
  show "live_clocks (run_reset i d s) = (if d = 0 then [] else [length (clocks s)])"
    by (rule clock_inv_after(1)[OF ci]) (simp_all add: f)
  show "buf (chan_c (run_reset i d s)) = (if DropTickOnReset (cfg s) then [] else buf (chan_c s))"
    using chan_invD(2)[OF c] by (simp add: f tl_short)
  show "pc (run_reset i d s) = Top" "cfg (run_reset i d s) = cfg s"
    "stop (run_reset i d s) = stop s"
    "wg (run_reset i d s) i = 0"
    "calls (run_reset i d s) = (calls s)(i := ResetWait d)"
    "ticker (run_reset i d s) = (if d = 0 then None else Some (length (clocks s)))"
    "cap (chan_c (run_reset i d s)) = cap (chan_c s)"
    "is_closed (chan_c (run_reset i d s)) = False"
    "trace (run_reset i d s) =
       trace s @ drain_acts (DropTickOnReset (cfg s)) s @ clock_acts d s @ [ResetAck i]"
    using w o by (simp_all add: f)
qed

lemma reset_crashed:
  assumes "invariant s" "calls s i = ResetSelect d" "pc s = Waiting" "d < 0"
  shows "step (RecvReset i) s = Some (run_reset i d s)"
    "pc (run_reset i d s) = Crashed NonPositiveInterval"
    "calls (run_reset i d s) i = ResetWait d" "wg (run_reset i d s) i = 1"
    "ticker (run_reset i d s) = ticker s" "live_clocks (run_reset i d s) = []"
    "buf (chan_c (run_reset i d s)) = (if DropTickOnReset (cfg s) then [] else buf (chan_c s))"
    "trace (run_reset i d s) = trace s @ drain_acts (DropTickOnReset (cfg s)) s @ clock_acts 0 s"
    "step (ResetReturn i) (run_reset i d s) = None" "step (ResetSkip i) (run_reset i d s) = None"
proof -
  have c: "chan_inv s" and k: "call_inv s" and co: "clock_ok s"
    using assms(1) by (simp_all add: invariant_def)
  have ci: "clock_inv s" using clock_inv_of_ok[OF co] assms(3) by simp
  have w: "wg s i = 1" using call_invD(2)[OF k assms(2)] by simp
  note f = run_reset_neg[OF assms(4), of i s]
  show "step (RecvReset i) s = Some (run_reset i d s)" using assms(2,3) by simp
  show "live_clocks (run_reset i d s) = []" by (rule stopped_live[OF ci]) (simp add: f)
  show "buf (chan_c (run_reset i d s)) = (if DropTickOnReset (cfg s) then [] else buf (chan_c s))"
    using chan_invD(2)[OF c] by (simp add: f tl_short)
  show "pc (run_reset i d s) = Crashed NonPositiveInterval"
    "calls (run_reset i d s) i = ResetWait d" "wg (run_reset i d s) i = 1"
    "ticker (run_reset i d s) = ticker s"
    "trace (run_reset i d s) = trace s @ drain_acts (DropTickOnReset (cfg s)) s @ clock_acts 0 s"
    "step (ResetReturn i) (run_reset i d s) = None" "step (ResetSkip i) (run_reset i d s) = None"
    using w by (simp_all add: f)
qed




lemma live_clocks_distinct_le:
  "clock_inv s \<Longrightarrow> length (live_clocks s) \<le> 1"
  by (simp add: clock_inv_def split: option.splits)

text \<open>
  C5. In every state of every execution at most one clock is running; while the program
  has not panicked it is the one \<open>t.ticker\<close> points to, and after a panic no clock is
  running. From any state with at most one running clock, the one \<open>t.ticker\<close> points to,
  \<open>newTicker d\<close> with
  \<open>d \<ge> 0\<close> does not panic; afterwards \<open>t.ticker\<close> is \<open>nil\<close> exactly when \<open>d = 0\<close>, the
  running clocks are none when \<open>d = 0\<close> and only the new clock, of period \<open>d\<close>,
  otherwise, and the history shows the stop of the previous clock (when there was one)
  before the start of the new one. The constructor applies the same step to a state
  without clocks.
\<close>

theorem newTicker_one_clock:
  shows "(execution cf d0 es = Some s \<longrightarrow>
           (\<not> crashed s \<longrightarrow> clock_inv s) \<and> (crashed s \<longrightarrow> live_clocks s = []) \<and>
           length (live_clocks s) \<le> 1) \<and>
         (0 \<le> d \<longrightarrow>
           (\<exists>s0. NewTicker_cfg cf d = Inr s0 \<and> (ticker s0 = None \<longleftrightarrow> d = 0) \<and>
                 clock_inv s0)) \<and>
         (clock_inv s \<and> 0 \<le> d \<longrightarrow>
           (\<exists>s'. newTicker d s = Inr s' \<and>
              (ticker s' = None \<longleftrightarrow> d = 0) \<and>
              ticker s' = (if d = 0 then None else Some (length (clocks s))) \<and>
              live_clocks s' = (if d = 0 then [] else [length (clocks s)]) \<and>
              clocks s' = stopped_clocks s @
                 (if d = 0 then [] else [\<lparr>period = d, running = True\<rparr>]) \<and>
              clock_inv s' \<and> length (live_clocks s') \<le> 1 \<and>
              trace s' = trace s @
                 (case ticker s of Some h \<Rightarrow> [ClockStop h] | None \<Rightarrow> []) @
                 (if d = 0 then [] else [ClockStart (length (clocks s)) d])))"
proof -
  have 1: "execution cf d0 es = Some s \<longrightarrow>
           (\<not> crashed s \<longrightarrow> clock_inv s) \<and> (crashed s \<longrightarrow> live_clocks s = []) \<and>
           length (live_clocks s) \<le> 1"
    using execution_invariant[of cf d0 es s] live_clocks_le[of s]
    by (auto simp: invariant_def clock_ok_def)
  have 2: "0 \<le> d \<longrightarrow>
           (\<exists>s0. NewTicker_cfg cf d = Inr s0 \<and> (ticker s0 = None \<longleftrightarrow> d = 0) \<and>
                 clock_inv s0)"
  proof
    assume d: "0 \<le> d"
    obtain s0 where s0: "NewTicker_cfg cf d = Inr s0"
      using newTicker_ok[OF d, of "\<lparr>cfg = cf, chan_c = make_chan 1, stop = NewShutdown,
          ticker = None, clocks = [], wg = (\<lambda>_. 0), calls = (\<lambda>_. NotCalled), pc = Top,
          trace = []\<rparr>"]
      by (auto simp: NewTicker_cfg_def)
    have n: "newTicker d \<lparr>cfg = cf, chan_c = make_chan 1, stop = NewShutdown,
          ticker = None, clocks = [], wg = (\<lambda>_. 0), calls = (\<lambda>_. NotCalled), pc = Top,
          trace = []\<rparr> = Inr s0"
      using s0 by (simp add: NewTicker_cfg_def split: sum.splits prod.splits)
    have "pc s0 = Top" using newTicker_frame(6)[OF n] by simp
    then have "clock_inv s0"
      using invariant_init[OF s0] by (simp add: invariant_def clock_ok_def)
    moreover have "ticker s0 = None \<longleftrightarrow> d = 0"
      using newTicker_nil[OF n] .
    ultimately show "\<exists>s0. NewTicker_cfg cf d = Inr s0 \<and> (ticker s0 = None \<longleftrightarrow> d = 0) \<and>
                 clock_inv s0" using s0 by (intro exI[of _ s0]) simp
  qed
  have 3: "clock_inv s \<and> 0 \<le> d \<longrightarrow>
           (\<exists>s'. newTicker d s = Inr s' \<and>
              (ticker s' = None \<longleftrightarrow> d = 0) \<and>
              ticker s' = (if d = 0 then None else Some (length (clocks s))) \<and>
              live_clocks s' = (if d = 0 then [] else [length (clocks s)]) \<and>
              clocks s' = stopped_clocks s @
                 (if d = 0 then [] else [\<lparr>period = d, running = True\<rparr>]) \<and>
              clock_inv s' \<and> length (live_clocks s') \<le> 1 \<and>
              trace s' = trace s @
                 (case ticker s of Some h \<Rightarrow> [ClockStop h] | None \<Rightarrow> []) @
                 (if d = 0 then [] else [ClockStart (length (clocks s)) d]))"
  proof
    assume a: "clock_inv s \<and> 0 \<le> d"
    then have ci: "clock_inv s" and d: "0 \<le> d" by simp_all
    obtain s' where n: "newTicker d s = Inr s'" using newTicker_ok[OF d] by blast
    have ci': "clock_inv s'" using newTicker_clock_inv[OF ci n] .
    show "\<exists>s'. newTicker d s = Inr s' \<and>
              (ticker s' = None \<longleftrightarrow> d = 0) \<and>
              ticker s' = (if d = 0 then None else Some (length (clocks s))) \<and>
              live_clocks s' = (if d = 0 then [] else [length (clocks s)]) \<and>
              clocks s' = stopped_clocks s @
                 (if d = 0 then [] else [\<lparr>period = d, running = True\<rparr>]) \<and>
              clock_inv s' \<and> length (live_clocks s') \<le> 1 \<and>
              trace s' = trace s @
                 (case ticker s of Some h \<Rightarrow> [ClockStop h] | None \<Rightarrow> []) @
                 (if d = 0 then [] else [ClockStart (length (clocks s)) d])"
      using n newTicker_nil[OF n] newTicker_ticker[OF n] newTicker_live[OF ci n]
        newTicker_clocks[OF n] ci' live_clocks_distinct_le[OF ci'] newTicker_trace[OF n]
      by (intro exI[of _ s']) simp
  qed
  show ?thesis using 1 2 3 by blast
qed

theorem newTicker_one_clock_witness:
  "clock_inv (the (execution keep_cfg 5 [FastPath, RecvTick 7])) \<and>
   live_clocks (the (execution keep_cfg 5 [FastPath, RecvTick 7])) = [0] \<and>
   (\<exists>s0. NewTicker_cfg keep_cfg 0 = Inr s0 \<and>
      ticker s0 = None) \<and>
   (\<exists>s'. newTicker 3 (the (execution keep_cfg 5 [FastPath, RecvTick 7])) = Inr s' \<and>
      ticker s' = Some 1 \<and> live_clocks s' = [1] \<and>
      trace s' = [ClockStart 0 5, ClockStop 0, ClockStart 1 3]) \<and>
   (\<exists>s'. newTicker 0 (the (execution keep_cfg 5 [FastPath, RecvTick 7])) = Inr s' \<and>
      ticker s' = None \<and> live_clocks s' = [] \<and>
      trace s' = [ClockStart 0 5, ClockStop 0])"
proof -
  let ?cf = "keep_cfg"
  let ?e = "execution ?cf 5 [FastPath, RecvTick 7]"
  have e: "?e = Some (the ?e)" by (simp add: eval_defs)
  have f: "ticker (the ?e) = Some 0" "length (clocks (the ?e)) = 1"
    "trace (the ?e) = [ClockStart 0 5]"
    by (simp_all add: eval_defs)
  have nc: "\<not> crashed (the ?e)" by (simp add: eval_defs)
  have ci: "clock_inv (the ?e)"
    using newTicker_one_clock[of ?cf 5 "[FastPath, RecvTick 7]" "the ?e" 3,
        THEN conjunct1] e nc by blast
  have l: "live_clocks (the ?e) = [0]" using ci f(1) by (simp add: clock_inv_def)
  have z: "\<exists>s0. NewTicker_cfg ?cf 0 = Inr s0 \<and> ticker s0 = None"
    using newTicker_one_clock[of ?cf 5 "[FastPath, RecvTick 7]" "the ?e" 0] by auto
  have a: "\<exists>s'. newTicker 3 (the ?e) = Inr s' \<and> ticker s' = Some 1 \<and> live_clocks s' = [1] \<and>
      trace s' = [ClockStart 0 5, ClockStop 0, ClockStart 1 3]"
    using newTicker_one_clock[of ?cf 5 "[FastPath, RecvTick 7]" "the ?e" 3] ci f by auto
  have b: "\<exists>s'. newTicker 0 (the ?e) = Inr s' \<and> ticker s' = None \<and> live_clocks s' = [] \<and>
      trace s' = [ClockStart 0 5, ClockStop 0]"
    using newTicker_one_clock[of ?cf 5 "[FastPath, RecvTick 7]" "the ?e" 0] ci f by auto
  show ?thesis by (intro conjI) (rule ci l z a b)+
qed

lemma step_quiet:
  assumes "invariant s" "quiet s" "\<not> resumes e s" "step e s = Some s'"
  shows "quiet s' \<and> sent (trace s') = sent (trace s) \<and>
         suffix (buf (chan_c s')) (buf (chan_c s))"
proof -
  have c: "chan_inv s" and k: "call_inv s" using assms(1) by (simp_all add: invariant_def)
  have q: "ticker s = None" "\<And>tm. pc s \<noteq> Draining tm" "\<And>tm. pc s \<noteq> Sending tm"
    using assms(2) by (simp_all add: quiet_def)
  from assms(4) show ?thesis
  proof (cases rule: step_cases)
    case (FastStop)
    have o: "\<not> is_closed (chan_c s)" using open_while_running[OF c] FastStop(2) by simp
    show ?thesis unfolding FastStop(4)
      by (simp add: quiet_def run_stop_fields[OF o] suffix_tl)
  next
    case (RecvStop)
    have o: "\<not> is_closed (chan_c s)" using open_while_running[OF c] RecvStop(2) by simp
    show ?thesis unfolding RecvStop(4)
      by (simp add: quiet_def run_stop_fields[OF o] suffix_tl)
  next
    case (RecvReset i d)
    have d: "d = 0" using assms(3) RecvReset(1,3) by (simp add: resumes_def)
    have w: "wg s i \<noteq> 0" using call_invD(2)[OF k RecvReset(3)] by simp
    show ?thesis unfolding RecvReset(4) d
      by (simp add: quiet_def run_reset_fields[OF order_refl w] suffix_tl)
  next
    case (RecvTick tm)
    then show ?thesis using q(1) by simp
  next
    case (DoDrain tm)
    then show ?thesis using q(2) by simp
  next
    case (SendOk tm)
    then show ?thesis using q(3) by simp
  next
    case (SendPanic tm)
    then show ?thesis using q(3) by simp
  next
    case Consume
    then show ?thesis using q by (simp add: quiet_def suffix_tl)
  qed (use q in \<open>simp_all add: quiet_def\<close>)
qed

lemma paused_run_quiet:
  assumes "invariant s" "quiet s" "paused_run es s = Some s'"
  shows "quiet s' \<and> sent (trace s') = sent (trace s) \<and>
         suffix (buf (chan_c s')) (buf (chan_c s))"
  using assms
proof (induction es arbitrary: s)
  case Nil
  then show ?case by simp
next
  case (Cons e es)
  from Cons.prems(3) obtain s1 where s1: "\<not> resumes e s" "step e s = Some s1"
      "paused_run es s1 = Some s'"
    by (auto split: if_splits option.splits)
  have a: "quiet s1 \<and> sent (trace s1) = sent (trace s) \<and>
         suffix (buf (chan_c s1)) (buf (chan_c s))"
    using step_quiet[OF Cons.prems(1,2) s1(1,2)] .
  have b: "quiet s' \<and> sent (trace s') = sent (trace s1) \<and>
         suffix (buf (chan_c s')) (buf (chan_c s1))"
    using Cons.IH[OF step_invariant[OF Cons.prems(1) s1(2)] _ s1(3)] a by blast
  show ?case using a b suffix_order.trans by auto
qed

lemma paused_run_invariant: "invariant s \<Longrightarrow> paused_run es s = Some s' \<Longrightarrow> invariant s'"
proof (induction es arbitrary: s)
  case Nil
  then show ?case by simp
next
  case (Cons e es)
  from Cons.prems(2) obtain s2 where s2: "step e s = Some s2" "paused_run es s2 = Some s'"
    by (auto split: if_splits option.splits)
  show ?case using Cons.IH[OF step_invariant[OF Cons.prems(1) s2(1)] s2(2)] .
qed

lemma quiet_live: "clock_ok s \<Longrightarrow> quiet s \<Longrightarrow> live_clocks s = []"
  by (simp add: clock_ok_def clock_inv_def quiet_def split: if_splits)

text \<open>
  C6. When the loop of a running ticker applies a call \<open>Reset(0)\<close>, the underlying clock is
  released: \<open>t.ticker\<close> is \<open>nil\<close> and no clock is running. From then on, along every run
  in which no reset with a period other than zero is applied (whatever else callers,
  consumers and the loop do, the return of that \<open>Reset\<close> and a stop included), the ticker
  stays without a clock, the loop cannot take a tick, no timestamp is sent, and the buffer
  of the output channel can only lose what it held.
\<close>

theorem pause_no_ticks:
  assumes "execution cf d0 es = Some s"
    and "calls s i = ResetSelect 0"
    and "step (RecvReset i) s = Some s1"
    and "paused_run es' s1 = Some s'"
  shows "ticker s1 = None \<and> live_clocks s1 = [] \<and>
         ticker s' = None \<and> live_clocks s' = [] \<and> step (RecvTick tm) s' = None \<and>
         sent (trace s') = sent (trace s1) \<and>
         suffix (buf (chan_c s')) (buf (chan_c s1))"
proof -
  have i: "invariant s" using execution_invariant[OF assms(1)] .
  have p: "pc s = Waiting" using assms(2,3) by (simp split: if_splits)
  note r = reset_applied[OF i assms(2) p order_refl]
  have s1: "s1 = run_reset i 0 s" using assms(3) r(1) by simp
  have i1: "invariant s1" using step_invariant[OF i assms(3)] .
  have q1: "quiet s1" unfolding s1 by (simp add: quiet_def r)
  have l1: "live_clocks s1 = []" unfolding s1 by (simp add: r)
  have t1: "ticker s1 = None" unfolding s1 by (simp add: r)
  have i': "invariant s'" using paused_run_invariant[OF i1 assms(4)] .
  have q: "quiet s' \<and> sent (trace s') = sent (trace s1) \<and>
         suffix (buf (chan_c s')) (buf (chan_c s1))"
    using paused_run_quiet[OF i1 q1 assms(4)] .
  have l': "live_clocks s' = []" using quiet_live[of s'] q i' by (simp add: invariant_def)
  have t': "ticker s' = None" using q by (simp add: quiet_def)
  show ?thesis using t1 l1 t' l' q by simp
qed

theorem pause_no_ticks_witness:
  "calls (the (execution keep_cfg 5 [FastPath, RecvTick 7, DoDrain, DoSend, CallReset 1 0, FastPath])) 1 = ResetSelect 0 \<and>
   live_clocks (the (execution keep_cfg 5 [FastPath, RecvTick 7, DoDrain, DoSend, CallReset 1 0, FastPath])) = [0] \<and>
   live_clocks (the (step (RecvReset 1)
      (the (execution keep_cfg 5 [FastPath, RecvTick 7, DoDrain, DoSend, CallReset 1 0, FastPath])))) = [] \<and>
   sent (trace (the (step (RecvReset 1)
      (the (execution keep_cfg 5 [FastPath, RecvTick 7, DoDrain, DoSend, CallReset 1 0, FastPath]))))) = [7] \<and>
   sent (trace (the (paused_run [ResetReturn 1, FastPath, CallReset 2 0, RecvReset 2, Consume,
                                 CallStop 3, FastPath]
     (the (step (RecvReset 1)
      (the (execution keep_cfg 5 [FastPath, RecvTick 7, DoDrain, DoSend, CallReset 1 0, FastPath]))))))) = [7] \<and>
   step (RecvTick 9) (the (paused_run [ResetReturn 1, FastPath, CallReset 2 0, RecvReset 2, Consume,
                                 CallStop 3, FastPath]
     (the (step (RecvReset 1)
      (the (execution keep_cfg 5 [FastPath, RecvTick 7, DoDrain, DoSend, CallReset 1 0, FastPath])))))) = None"
proof -
  let ?cf = "keep_cfg"
  let ?e = "execution ?cf 5 [FastPath, RecvTick 7, DoDrain, DoSend, CallReset 1 0, FastPath]"
  let ?s1 = "step (RecvReset 1) (the ?e)"
  let ?r = "paused_run [ResetReturn 1, FastPath, CallReset 2 0, RecvReset 2, Consume,
                                 CallStop 3, FastPath] (the ?s1)"
  have e: "?e = Some (the ?e)" by (simp add: eval_defs)
  have c: "calls (the ?e) 1 = ResetSelect 0" by (simp add: eval_defs)
  have l: "live_clocks (the ?e) = [0]" by (simp add: eval_defs live_clocks_def)
  have s1: "?s1 = Some (the ?s1)" by (simp add: eval_defs)
  have t1: "sent (trace (the ?s1)) = [7]" by (simp add: eval_defs)
  have r: "?r = Some (the ?r)" by (simp add: eval_defs resumes_def)
  note w = pause_no_ticks[OF e c s1 r, of 9]
  show ?thesis using c l t1 w by simp
qed

lemma drains_append [simp]: "drains (xs @ ys) = drains xs + drains ys"
  by (induction xs rule: drains.induct) simp_all

lemma drains_acts [simp]:
  "drains (drain_acts b s) = (if b then 1 else 0)" "drains (clock_acts d s) = 0"
  by (auto simp: drain_acts_def clock_acts_def split: option.splits)

lemma fresh_buf_same:
  assumes "fresh_buf n s" "trace s' = trace s"
    "buf (chan_c s') = buf (chan_c s) \<or> buf (chan_c s') = tl (buf (chan_c s))"
  shows "fresh_buf n s'"
  using assms by (auto simp: fresh_buf_def)

lemma fresh_buf_acts:
  assumes "fresh_buf n s" "trace s' = trace s @ as" "sent as = []"
    "buf (chan_c s') = buf (chan_c s) \<or> buf (chan_c s') = tl (buf (chan_c s))"
  shows "fresh_buf n s'"
  using assms by (auto simp: fresh_buf_def)

lemma step_fresh_buf:
  assumes "invariant s" "fresh_buf n s" "step e s = Some s'"
  shows "fresh_buf n s'"
proof -
  have c: "chan_inv s" and k: "call_inv s" using assms(1) by (simp_all add: invariant_def)
  note f = assms(2)
  from assms(3) show ?thesis
  proof (cases rule: step_cases)
    case (FastStop)
    have o: "\<not> is_closed (chan_c s)" using open_while_running[OF c] FastStop(2) by simp
    show ?thesis unfolding FastStop(4)
      by (rule fresh_buf_acts[OF f, of _ "drain_acts (DropTickOnStop (cfg s)) s @
            (if CloseOnStop (cfg s) then [Close] else []) @ clock_acts 0 s @ [StopAck]"])
         (simp_all add: run_stop_fields[OF o])
  next
    case (RecvStop)
    have o: "\<not> is_closed (chan_c s)" using open_while_running[OF c] RecvStop(2) by simp
    show ?thesis unfolding RecvStop(4)
      by (rule fresh_buf_acts[OF f, of _ "drain_acts (DropTickOnStop (cfg s)) s @
            (if CloseOnStop (cfg s) then [Close] else []) @ clock_acts 0 s @ [StopAck]"])
         (simp_all add: run_stop_fields[OF o])
  next
    case (RecvReset i d)
    show ?thesis
    proof (cases "d < 0")
      case True
      show ?thesis unfolding RecvReset(4)
        by (rule fresh_buf_acts[OF f, of _ "drain_acts (DropTickOnReset (cfg s)) s @
              clock_acts 0 s"])
           (simp_all add: run_reset_neg[OF True])
    next
      case False
      then have d: "0 \<le> d" by simp
      have w: "wg s i \<noteq> 0" using call_invD(2)[OF k RecvReset(3)] by simp
      show ?thesis unfolding RecvReset(4)
        by (rule fresh_buf_acts[OF f, of _ "drain_acts (DropTickOnReset (cfg s)) s @
              clock_acts d s @ [ResetAck i]"])
           (simp_all add: run_reset_fields[OF d w])
    qed
  next
    case (DoDrain tm)
    show ?thesis unfolding DoDrain(3)
      by (rule fresh_buf_acts[OF f, of _ "drain_acts True s"])
         (simp_all add: drain_trace drain_chan)
  next
    case (SendOk tm)
    have "buf (chan_c s) = []" using chan_invD(3)[OF c SendOk(2)] .
    then show ?thesis unfolding SendOk(5) using f by (simp add: fresh_buf_def)
  qed (simp_all add: fresh_buf_same[OF f])
qed

lemma run_fresh_buf:
  "invariant s \<Longrightarrow> fresh_buf n s \<Longrightarrow> run es s = Some s' \<Longrightarrow> fresh_buf n s'"
proof (induction es arbitrary: s)
  case Nil
  then show ?case by simp
next
  case (Cons e es)
  then obtain s1 where s1: "step e s = Some s1" "run es s1 = Some s'"
    by (auto split: option.splits)
  show ?case
    using Cons.IH[OF step_invariant[OF Cons.prems(1) s1(1)]
        step_fresh_buf[OF Cons.prems(1,2) s1(1)] s1(2)] .
qed

lemma step_drains:
  assumes "invariant s" "step e s = Some s'"
  shows "drains (trace s) \<le> drains (trace s')"
    "e \<noteq> Consume \<Longrightarrow> (\<forall>tm. pc s \<noteq> Sending tm) \<Longrightarrow> drains (trace s') = drains (trace s) \<Longrightarrow>
       buf (chan_c s') = buf (chan_c s) \<and> (\<forall>tm. pc s' \<noteq> Sending tm)"
proof -
  have c: "chan_inv s" and k: "call_inv s" using assms(1) by (simp_all add: invariant_def)
  have "drains (trace s) \<le> drains (trace s') \<and>
    (e \<noteq> Consume \<longrightarrow> (\<forall>tm. pc s \<noteq> Sending tm) \<longrightarrow> drains (trace s') = drains (trace s) \<longrightarrow>
       buf (chan_c s') = buf (chan_c s) \<and> (\<forall>tm. pc s' \<noteq> Sending tm))"
    using assms(2)
  proof (cases rule: step_cases)
    case (FastStop)
    have o: "\<not> is_closed (chan_c s)" using open_while_running[OF c] FastStop(2) by simp
    show ?thesis unfolding FastStop(4) by (simp add: run_stop_fields[OF o])
  next
    case (RecvStop)
    have o: "\<not> is_closed (chan_c s)" using open_while_running[OF c] RecvStop(2) by simp
    show ?thesis unfolding RecvStop(4) by (simp add: run_stop_fields[OF o])
  next
    case (RecvReset i d)
    show ?thesis
    proof (cases "d < 0")
      case True
      show ?thesis unfolding RecvReset(4) by (simp add: run_reset_neg[OF True])
    next
      case False
      then have d: "0 \<le> d" by simp
      have w: "wg s i \<noteq> 0" using call_invD(2)[OF k RecvReset(3)] by simp
      show ?thesis unfolding RecvReset(4) by (simp add: run_reset_fields[OF d w])
    qed
  next
    case (DoDrain tm)
    show ?thesis unfolding DoDrain(3) by (simp add: drain_trace)
  next
    case (SendOk tm)
    then show ?thesis by simp
  qed simp_all
  then show "drains (trace s) \<le> drains (trace s')"
    "e \<noteq> Consume \<Longrightarrow> (\<forall>tm. pc s \<noteq> Sending tm) \<Longrightarrow> drains (trace s') = drains (trace s) \<Longrightarrow>
       buf (chan_c s') = buf (chan_c s) \<and> (\<forall>tm. pc s' \<noteq> Sending tm)"
    by blast+
qed

lemma run_drains_mono: "invariant s \<Longrightarrow> run es s = Some s' \<Longrightarrow> drains (trace s) \<le> drains (trace s')"
proof (induction es arbitrary: s)
  case Nil
  then show ?case by simp
next
  case (Cons e es)
  then obtain s1 where s1: "step e s = Some s1" "run es s1 = Some s'"
    by (auto split: option.splits)
  show ?case
    using Cons.IH[OF step_invariant[OF Cons.prems(1) s1(1)] s1(2)]
      step_drains(1)[OF Cons.prems(1) s1(1)] by simp
qed

lemma run_kept:
  assumes "invariant s" "\<forall>tm. pc s \<noteq> Sending tm" "run es s = Some s'" "Consume \<notin> set es"
    "drains (trace s') = drains (trace s)"
  shows "buf (chan_c s') = buf (chan_c s)"
  using assms
proof (induction es arbitrary: s)
  case Nil
  then show ?case by simp
next
  case (Cons e es)
  then obtain s1 where s1: "step e s = Some s1" "run es s1 = Some s'"
    by (auto split: option.splits)
  have i1: "invariant s1" using step_invariant[OF Cons.prems(1) s1(1)] .
  have "drains (trace s) \<le> drains (trace s1)" "drains (trace s1) \<le> drains (trace s')"
    using step_drains(1)[OF Cons.prems(1) s1(1)] run_drains_mono[OF i1 s1(2)] by simp_all
  then have eq: "drains (trace s1) = drains (trace s)" "drains (trace s') = drains (trace s1)"
    using Cons.prems(5) by simp_all
  have ne: "e \<noteq> Consume" "Consume \<notin> set es" using Cons.prems(4) by auto
  have k: "buf (chan_c s1) = buf (chan_c s)" "\<forall>tm. pc s1 \<noteq> Sending tm"
    using step_drains(2)[OF Cons.prems(1) s1(1) ne(1) Cons.prems(2) eq(1)] by simp_all
  show ?case using Cons.IH[OF i1 k(2) s1(2) ne(2) eq(2)] k(1) by simp
qed

text \<open>
  C7, as the code has it. The claim fails in its second half: the caller's return from
  \<open>Reset\<close> is not ordered before the next tick of the new clock, and a tick delivery
  discards the tick that the reset has kept, so that after \<open>Reset\<close> returns the tick
  buffered before may be gone although \<open>DropTickOnReset\<close> is false. What holds, when the
  loop of a running ticker takes the command of a call \<open>Reset(d)\<close> with \<open>d \<ge> 0\<close>, the
  handler runs the optional drain before the clock replacement and acknowledges last, and
  for every continuation of the execution, before and after the return of \<open>Reset\<close>:
  with \<open>DropTickOnReset\<close> the handler leaves the buffer empty, and from then on the
  buffer holds nothing but a tick sent after the reset: the tick buffered before is gone
  for good;
  without \<open>DropTickOnReset\<close> the handler leaves the buffer as it was, and as long as no
  consumer receives and the loop performs no drain (neither for a tick delivery nor for a
  stop with \<open>DropTickOnStop\<close>), the buffer stays as it was: a tick buffered before the
  reset is what a consumer receives.
  For \<open>d < 0\<close> the handler panics after the optional drain and the stop of the old clock.
\<close>

theorem reset_drop_policy:
  assumes "execution cf d0 es = Some s"
    and "calls s i = ResetSelect d"
    and "pc s = Waiting"
  shows "\<exists>s1. step (RecvReset i) s = Some s1 \<and>
     (0 \<le> d \<longrightarrow>
        calls s1 i = ResetWait d \<and> wg s1 i = 0 \<and>
        trace s1 = trace s @ drain_acts (DropTickOnReset cf) s @ clock_acts d s @ [ResetAck i] \<and>
        (DropTickOnReset cf \<longrightarrow>
           buf (chan_c s1) = [] \<and>
           (\<forall>es' s'. run es' s1 = Some s' \<longrightarrow> fresh_buf (length (sent (trace s1))) s')) \<and>
        (\<not> DropTickOnReset cf \<longrightarrow>
           buf (chan_c s1) = buf (chan_c s) \<and>
           (\<forall>es' s'. run es' s1 = Some s' \<and> Consume \<notin> set es' \<and>
                drains (trace s') = drains (trace s1) \<longrightarrow>
              buf (chan_c s') = buf (chan_c s) \<and>
              (\<forall>v. buf (chan_c s) = [v] \<longrightarrow>
                 (\<exists>ch'. chan_recv (chan_c s') = Some (Some v, ch') \<and> buf ch' = []))))) \<and>
     (d < 0 \<longrightarrow>
        pc s1 = Crashed NonPositiveInterval \<and>
        trace s1 = trace s @ drain_acts (DropTickOnReset cf) s @ clock_acts 0 s \<and>
        buf (chan_c s1) = (if DropTickOnReset cf then [] else buf (chan_c s)))"
proof -
  have i: "invariant s" using execution_invariant[OF assms(1)] .
  have cf: "cfg s = cf" using execution_cfg[OF assms(1)] .
  let ?s1 = "run_reset i d s"
  have st: "step (RecvReset i) s = Some ?s1" using assms(2,3) by simp
  have i1: "invariant ?s1" using step_invariant[OF i st] .
  have neg: "d < 0 \<longrightarrow>
        pc ?s1 = Crashed NonPositiveInterval \<and>
        trace ?s1 = trace s @ drain_acts (DropTickOnReset cf) s @ clock_acts 0 s \<and>
        buf (chan_c ?s1) = (if DropTickOnReset cf then [] else buf (chan_c s))"
    using reset_crashed[OF i assms(2,3)] by (simp add: cf)
  have pos: "0 \<le> d \<longrightarrow>
        calls ?s1 i = ResetWait d \<and> wg ?s1 i = 0 \<and>
        trace ?s1 = trace s @ drain_acts (DropTickOnReset cf) s @ clock_acts d s @ [ResetAck i] \<and>
        (DropTickOnReset cf \<longrightarrow>
           buf (chan_c ?s1) = [] \<and>
           (\<forall>es' s'. run es' ?s1 = Some s' \<longrightarrow> fresh_buf (length (sent (trace ?s1))) s')) \<and>
        (\<not> DropTickOnReset cf \<longrightarrow>
           buf (chan_c ?s1) = buf (chan_c s) \<and>
           (\<forall>es' s'. run es' ?s1 = Some s' \<and> Consume \<notin> set es' \<and>
                drains (trace s') = drains (trace ?s1) \<longrightarrow>
              buf (chan_c s') = buf (chan_c s) \<and>
              (\<forall>v. buf (chan_c s) = [v] \<longrightarrow>
                 (\<exists>ch'. chan_recv (chan_c s') = Some (Some v, ch') \<and> buf ch' = []))))"
  proof
    assume d: "0 \<le> d"
    note r = reset_applied[OF i assms(2,3) d]
    have a: "calls ?s1 i = ResetWait d \<and> wg ?s1 i = 0 \<and>
        trace ?s1 = trace s @ drain_acts (DropTickOnReset cf) s @ clock_acts d s @ [ResetAck i]"
      by (simp add: r cf)
    have b: "DropTickOnReset cf \<longrightarrow>
           buf (chan_c ?s1) = [] \<and>
           (\<forall>es' s'. run es' ?s1 = Some s' \<longrightarrow> fresh_buf (length (sent (trace ?s1))) s')"
    proof
      assume dr: "DropTickOnReset cf"
      have e: "buf (chan_c ?s1) = []" using dr by (simp add: r cf)
      then have f: "fresh_buf (length (sent (trace ?s1))) ?s1" by (simp add: fresh_buf_def)
      show "buf (chan_c ?s1) = [] \<and>
           (\<forall>es' s'. run es' ?s1 = Some s' \<longrightarrow> fresh_buf (length (sent (trace ?s1))) s')"
        using e run_fresh_buf[OF i1 f] by blast
    qed
    have c: "\<not> DropTickOnReset cf \<longrightarrow>
           buf (chan_c ?s1) = buf (chan_c s) \<and>
           (\<forall>es' s'. run es' ?s1 = Some s' \<and> Consume \<notin> set es' \<and>
                drains (trace s') = drains (trace ?s1) \<longrightarrow>
              buf (chan_c s') = buf (chan_c s) \<and>
              (\<forall>v. buf (chan_c s) = [v] \<longrightarrow>
                 (\<exists>ch'. chan_recv (chan_c s') = Some (Some v, ch') \<and> buf ch' = [])))"
    proof
      assume kp: "\<not> DropTickOnReset cf"
      have e: "buf (chan_c ?s1) = buf (chan_c s)" using kp by (simp add: r cf)
      have ns: "\<forall>tm. pc ?s1 \<noteq> Sending tm" by (simp add: r)
      have "\<forall>es' s'. run es' ?s1 = Some s' \<and> Consume \<notin> set es' \<and>
                drains (trace s') = drains (trace ?s1) \<longrightarrow>
              buf (chan_c s') = buf (chan_c s) \<and>
              (\<forall>v. buf (chan_c s) = [v] \<longrightarrow>
                 (\<exists>ch'. chan_recv (chan_c s') = Some (Some v, ch') \<and> buf ch' = []))"
      proof (intro allI impI)
        fix es' s'
        assume h: "run es' ?s1 = Some s' \<and> Consume \<notin> set es' \<and>
                drains (trace s') = drains (trace ?s1)"
        then have b': "buf (chan_c s') = buf (chan_c s)"
          using run_kept[OF i1 ns, of es' s'] e by simp
        then show "buf (chan_c s') = buf (chan_c s) \<and>
              (\<forall>v. buf (chan_c s) = [v] \<longrightarrow>
                 (\<exists>ch'. chan_recv (chan_c s') = Some (Some v, ch') \<and> buf ch' = []))"
          by (simp add: chan_recv_def)
      qed
      then show "buf (chan_c ?s1) = buf (chan_c s) \<and>
           (\<forall>es' s'. run es' ?s1 = Some s' \<and> Consume \<notin> set es' \<and>
                drains (trace s') = drains (trace ?s1) \<longrightarrow>
              buf (chan_c s') = buf (chan_c s) \<and>
              (\<forall>v. buf (chan_c s) = [v] \<longrightarrow>
                 (\<exists>ch'. chan_recv (chan_c s') = Some (Some v, ch') \<and> buf ch' = [])))"
        using e by blast
    qed
    show "calls ?s1 i = ResetWait d \<and> wg ?s1 i = 0 \<and>
        trace ?s1 = trace s @ drain_acts (DropTickOnReset cf) s @ clock_acts d s @ [ResetAck i] \<and>
        (DropTickOnReset cf \<longrightarrow>
           buf (chan_c ?s1) = [] \<and>
           (\<forall>es' s'. run es' ?s1 = Some s' \<longrightarrow> fresh_buf (length (sent (trace ?s1))) s')) \<and>
        (\<not> DropTickOnReset cf \<longrightarrow>
           buf (chan_c ?s1) = buf (chan_c s) \<and>
           (\<forall>es' s'. run es' ?s1 = Some s' \<and> Consume \<notin> set es' \<and>
                drains (trace s') = drains (trace ?s1) \<longrightarrow>
              buf (chan_c s') = buf (chan_c s) \<and>
              (\<forall>v. buf (chan_c s) = [v] \<longrightarrow>
                 (\<exists>ch'. chan_recv (chan_c s') = Some (Some v, ch') \<and> buf ch' = []))))"
      using a b c by blast
  qed
  show ?thesis using st pos neg by blast
qed

theorem reset_drop_policy_witness:
  "calls (the (execution drop_cfg 5 [FastPath, RecvTick 7, DoDrain, DoSend, FastPath, CallReset 1 3])) 1 = ResetSelect 3 \<and>
   pc (the (execution drop_cfg 5 [FastPath, RecvTick 7, DoDrain, DoSend, FastPath, CallReset 1 3])) = Waiting \<and>
   buf (chan_c (the (execution drop_cfg 5 [FastPath, RecvTick 7, DoDrain, DoSend, FastPath, CallReset 1 3]))) = [7] \<and>
   buf (chan_c (the (step (RecvReset 1)
       (the (execution drop_cfg 5 [FastPath, RecvTick 7, DoDrain, DoSend, FastPath, CallReset 1 3]))))) = [] \<and>
   calls (the (run [FastPath, RecvTick 9, DoDrain, DoSend, ResetReturn 1]
     (the (step (RecvReset 1)
       (the (execution drop_cfg 5 [FastPath, RecvTick 7, DoDrain, DoSend, FastPath, CallReset 1 3])))))) 1 = ResetReturned 3 \<and>
   sent (trace (the (run [FastPath, RecvTick 9, DoDrain, DoSend, ResetReturn 1]
     (the (step (RecvReset 1)
       (the (execution drop_cfg 5 [FastPath, RecvTick 7, DoDrain, DoSend, FastPath, CallReset 1 3]))))))) = [7, 9] \<and>
   fresh_buf 1 (the (run [FastPath, RecvTick 9, DoDrain, DoSend, ResetReturn 1]
     (the (step (RecvReset 1)
       (the (execution drop_cfg 5 [FastPath, RecvTick 7, DoDrain, DoSend, FastPath, CallReset 1 3])))))) \<and>
   buf (chan_c (the (execution keep_cfg 5 [FastPath, RecvTick 7, DoDrain, DoSend, FastPath, CallReset 1 3]))) = [7] \<and>
   calls (the (run [ResetReturn 1]
     (the (step (RecvReset 1)
       (the (execution keep_cfg 5 [FastPath, RecvTick 7, DoDrain, DoSend, FastPath, CallReset 1 3])))))) 1 = ResetReturned 3 \<and>
   buf (chan_c (the (run [ResetReturn 1]
     (the (step (RecvReset 1)
       (the (execution keep_cfg 5 [FastPath, RecvTick 7, DoDrain, DoSend, FastPath, CallReset 1 3]))))))) = [7] \<and>
   (\<exists>ch'. chan_recv (chan_c (the (run [ResetReturn 1]
     (the (step (RecvReset 1)
       (the (execution keep_cfg 5 [FastPath, RecvTick 7, DoDrain, DoSend, FastPath, CallReset 1 3]))))))) = Some (Some 7, ch') \<and> buf ch' = []) \<and>
   pc (the (step (RecvReset 1) (the
       (execution drop_cfg 5 [FastPath, RecvTick 7, DoDrain, DoSend, FastPath, CallReset 1 (- 2)])))) =
     Crashed NonPositiveInterval \<and>
   buf (chan_c (the (step (RecvReset 1) (the
       (execution drop_cfg 5 [FastPath, RecvTick 7, DoDrain, DoSend, FastPath, CallReset 1 (- 2)]))))) = []"
proof -
  let ?d = "execution drop_cfg 5 [FastPath, RecvTick 7, DoDrain, DoSend, FastPath, CallReset 1 3]"
  let ?k = "execution keep_cfg 5 [FastPath, RecvTick 7, DoDrain, DoSend, FastPath, CallReset 1 3]"
  let ?n = "execution drop_cfg 5 [FastPath, RecvTick 7, DoDrain, DoSend, FastPath, CallReset 1 (- 2)]"
  let ?d1 = "step (RecvReset 1) (the ?d)"
  let ?k1 = "step (RecvReset 1) (the ?k)"
  let ?n1 = "step (RecvReset 1) (the ?n)"
  let ?d2 = "run [FastPath, RecvTick 9, DoDrain, DoSend, ResetReturn 1] (the ?d1)"
  let ?k2 = "run [ResetReturn 1] (the ?k1)"
  have d: "?d = Some (the ?d)" by (simp add: eval_defs)
  have dc: "calls (the ?d) 1 = ResetSelect 3" "pc (the ?d) = Waiting" by (simp_all add: eval_defs)
  have db: "buf (chan_c (the ?d)) = [7]" by (simp add: eval_defs)
  have d1: "?d1 = Some (the ?d1)" by (simp add: eval_defs)
  have dl: "length (sent (trace (the ?d1))) = 1" by (simp add: eval_defs)
  have d2: "?d2 = Some (the ?d2)" by (simp add: eval_defs)
  have d3: "calls (the ?d2) 1 = ResetReturned 3" "sent (trace (the ?d2)) = [7, 9]"
    by (simp_all add: eval_defs)
  from reset_drop_policy[OF d dc] obtain s1 where
    st: "?d1 = Some s1" and
    q: "0 \<le> (3::int) \<longrightarrow> calls s1 1 = ResetWait 3 \<and> wg s1 1 = 0 \<and>
        trace s1 = trace (the ?d) @ drain_acts (DropTickOnReset drop_cfg) (the ?d) @
           clock_acts 3 (the ?d) @ [ResetAck 1] \<and>
        (DropTickOnReset drop_cfg \<longrightarrow>
           buf (chan_c s1) = [] \<and>
           (\<forall>es' s'. run es' s1 = Some s' \<longrightarrow> fresh_buf (length (sent (trace s1))) s')) \<and>
        (\<not> DropTickOnReset drop_cfg \<longrightarrow>
           buf (chan_c s1) = buf (chan_c (the ?d)) \<and>
           (\<forall>es' s'. run es' s1 = Some s' \<and> Consume \<notin> set es' \<and>
                drains (trace s') = drains (trace s1) \<longrightarrow>
              buf (chan_c s') = buf (chan_c (the ?d)) \<and>
              (\<forall>v. buf (chan_c (the ?d)) = [v] \<longrightarrow>
                 (\<exists>ch'. chan_recv (chan_c s') = Some (Some v, ch') \<and> buf ch' = []))))"
    by blast
  have s1: "s1 = the ?d1" using st d1 by (metis option.sel)
  have p3: "0 \<le> (3::int)" by simp
  have dr: "DropTickOnReset drop_cfg" by simp
  note e = q[THEN mp, OF p3, THEN conjunct2, THEN conjunct2, THEN conjunct2, THEN conjunct1,
      THEN mp, OF dr]
  have D1: "buf (chan_c (the ?d1)) = []" using e unfolding s1 by blast
  have "\<forall>es' s'. run es' (the ?d1) = Some s' \<longrightarrow> fresh_buf (length (sent (trace (the ?d1)))) s'"
    using e unfolding s1 by blast
  then have "fresh_buf (length (sent (trace (the ?d1)))) (the ?d2)" using d2 by blast
  then have D2: "fresh_buf 1 (the ?d2)" unfolding dl .
  have k: "?k = Some (the ?k)" by (simp add: eval_defs)
  have kc: "calls (the ?k) 1 = ResetSelect 3" "pc (the ?k) = Waiting" by (simp_all add: eval_defs)
  have kb: "buf (chan_c (the ?k)) = [7]" by (simp add: eval_defs)
  have k1: "?k1 = Some (the ?k1)" by (simp add: eval_defs)
  have k2: "?k2 = Some (the ?k2)" by (simp add: eval_defs)
  have k3: "calls (the ?k2) 1 = ResetReturned 3"
    "drains (trace (the ?k2)) = drains (trace (the ?k1))" "Consume \<notin> set [ResetReturn 1]"
    by (simp_all add: eval_defs)
  from reset_drop_policy[OF k kc] obtain t1 where
    tt: "?k1 = Some t1" and
    r: "0 \<le> (3::int) \<longrightarrow> calls t1 1 = ResetWait 3 \<and> wg t1 1 = 0 \<and>
        trace t1 = trace (the ?k) @ drain_acts (DropTickOnReset keep_cfg) (the ?k) @
           clock_acts 3 (the ?k) @ [ResetAck 1] \<and>
        (DropTickOnReset keep_cfg \<longrightarrow>
           buf (chan_c t1) = [] \<and>
           (\<forall>es' s'. run es' t1 = Some s' \<longrightarrow> fresh_buf (length (sent (trace t1))) s')) \<and>
        (\<not> DropTickOnReset keep_cfg \<longrightarrow>
           buf (chan_c t1) = buf (chan_c (the ?k)) \<and>
           (\<forall>es' s'. run es' t1 = Some s' \<and> Consume \<notin> set es' \<and>
                drains (trace s') = drains (trace t1) \<longrightarrow>
              buf (chan_c s') = buf (chan_c (the ?k)) \<and>
              (\<forall>v. buf (chan_c (the ?k)) = [v] \<longrightarrow>
                 (\<exists>ch'. chan_recv (chan_c s') = Some (Some v, ch') \<and> buf ch' = []))))"
    by blast
  have t1: "t1 = the ?k1" using tt k1 by (metis option.sel)
  have kp: "\<not> DropTickOnReset keep_cfg" by simp
  note g = r[THEN mp, OF p3, THEN conjunct2, THEN conjunct2, THEN conjunct2, THEN conjunct2,
      THEN mp, OF kp, THEN conjunct2]
  have "\<forall>es' s'. run es' (the ?k1) = Some s' \<and> Consume \<notin> set es' \<and>
                drains (trace s') = drains (trace (the ?k1)) \<longrightarrow>
              buf (chan_c s') = buf (chan_c (the ?k)) \<and>
              (\<forall>v. buf (chan_c (the ?k)) = [v] \<longrightarrow>
                 (\<exists>ch'. chan_recv (chan_c s') = Some (Some v, ch') \<and> buf ch' = []))"
    using g unfolding t1 .
  then have "buf (chan_c (the ?k2)) = buf (chan_c (the ?k)) \<and>
              (\<forall>v. buf (chan_c (the ?k)) = [v] \<longrightarrow>
                 (\<exists>ch'. chan_recv (chan_c (the ?k2)) = Some (Some v, ch') \<and> buf ch' = []))"
    using k2 k3(2,3) by blast
  then have K2: "buf (chan_c (the ?k2)) = [7]"
    "\<exists>ch'. chan_recv (chan_c (the ?k2)) = Some (Some 7, ch') \<and> buf ch' = []"
    unfolding kb by blast+
  have n: "?n = Some (the ?n)" by (simp add: eval_defs)
  have nc: "calls (the ?n) 1 = ResetSelect (- 2)" "pc (the ?n) = Waiting"
    by (simp_all add: eval_defs)
  from reset_drop_policy[OF n nc] obtain u1 where
    ut: "?n1 = Some u1" and
    v: "(- 2 :: int) < 0 \<longrightarrow>
        pc u1 = Crashed NonPositiveInterval \<and>
        trace u1 = trace (the ?n) @ drain_acts (DropTickOnReset drop_cfg) (the ?n) @
           clock_acts 0 (the ?n) \<and>
        buf (chan_c u1) = (if DropTickOnReset drop_cfg then [] else buf (chan_c (the ?n)))"
    by blast
  have n1: "?n1 = Some (the ?n1)" by (simp add: eval_defs)
  have u1: "u1 = the ?n1" using ut n1 by (metis option.sel)
  have m2: "(- 2 :: int) < 0" by simp
  note h = v[THEN mp, OF m2]
  have N1: "pc (the ?n1) = Crashed NonPositiveInterval" "buf (chan_c (the ?n1)) = []"
    using h dr unfolding u1 by (blast, presburger)
  show ?thesis
    by (intro conjI) (rule dc db D1 d3 D2 kb k3(1) K2 N1)+
qed

text \<open>
  The counterexample to C7 as stated. A ticker without \<open>DropTickOnReset\<close> has tick \<open>7\<close>
  buffered when \<open>Reset(3)\<close> is called; the loop applies the reset, the new clock fires
  and the loop delivers tick \<open>9\<close> before the caller is scheduled again. When \<open>Reset\<close>
  has returned, tick \<open>7\<close> has been drained by the tick delivery: the consumer receives
  \<open>9\<close>, and the tick buffered before the reset is not retrievable.
\<close>

theorem reset_kept_tick_overwritten:
  "\<not> DropTickOnReset keep_cfg \<and>
   buf (chan_c (the (execution keep_cfg 5 [FastPath, RecvTick 7, DoDrain, DoSend, FastPath, CallReset 1 3]))) = [7] \<and>
   execution keep_cfg 5
      [FastPath, RecvTick 7, DoDrain, DoSend, FastPath, CallReset 1 3, RecvReset 1, FastPath, RecvTick 9, DoDrain, DoSend,
       ResetReturn 1] =
     Some (the (execution keep_cfg 5
      [FastPath, RecvTick 7, DoDrain, DoSend, FastPath, CallReset 1 3, RecvReset 1, FastPath, RecvTick 9, DoDrain, DoSend,
       ResetReturn 1])) \<and>
   calls (the (execution keep_cfg 5
      [FastPath, RecvTick 7, DoDrain, DoSend, FastPath, CallReset 1 3, RecvReset 1, FastPath, RecvTick 9, DoDrain, DoSend,
       ResetReturn 1])) 1 = ResetReturned 3 \<and>
   trace (the (execution keep_cfg 5
      [FastPath, RecvTick 7, DoDrain, DoSend, FastPath, CallReset 1 3, RecvReset 1, FastPath, RecvTick 9, DoDrain, DoSend,
       ResetReturn 1])) =
     [ClockStart 0 5, Drain None, Send 7, ClockStop 0, ClockStart 1 3, ResetAck 1,
      Drain (Some 7), Send 9] \<and>
   buf (chan_c (the (execution keep_cfg 5
      [FastPath, RecvTick 7, DoDrain, DoSend, FastPath, CallReset 1 3, RecvReset 1, FastPath, RecvTick 9, DoDrain, DoSend,
       ResetReturn 1]))) = [9] \<and>
   chan_recv (chan_c (the (execution keep_cfg 5
      [FastPath, RecvTick 7, DoDrain, DoSend, FastPath, CallReset 1 3, RecvReset 1, FastPath, RecvTick 9, DoDrain, DoSend,
       ResetReturn 1]))) =
     Some (Some 9, (chan_c (the (execution keep_cfg 5
      [FastPath, RecvTick 7, DoDrain, DoSend, FastPath, CallReset 1 3, RecvReset 1, FastPath, RecvTick 9, DoDrain, DoSend,
       ResetReturn 1])))\<lparr>buf := []\<rparr>)"
  by (simp add: eval_defs)

text \<open>
  C9. For a negative duration \<open>time.NewTicker\<close> panics, and so does \<open>newTicker\<close>, which
  reaches it because the duration is not zero, after it has stopped the old clock. Hence
  both constructors panic and no execution starts; and a call \<open>Reset(d)\<close> on a ticker
  whose loop waits in its \<open>select\<close> passes the call site without a panic, the loop keeps
  waiting, and the panic happens in the step of the loop that takes the command: the call
  has passed its \<open>select\<close>, the handler has drained (with \<open>DropTickOnReset\<close>) and stopped
  the old clock, and \<open>t.ticker\<close> still points to it.
\<close>

theorem negative_period_panics:
  assumes "d < 0"
  shows "d \<noteq> 0 \<and> time_NewTicker d s = Inl NonPositiveInterval \<and>
         newTicker d s =
           Inl (NonPositiveInterval,
                case ticker s of Some h \<Rightarrow> time_Ticker_Stop h s | None \<Rightarrow> s) \<and>
         NewTicker d = Inl NonPositiveInterval \<and>
         NewTicker_cfg cf d = Inl NonPositiveInterval \<and>
         execution cf d es = None \<and>
         (calls s i = NotCalled \<and> pc s = Waiting \<longrightarrow>
            (\<exists>s1 s2. step (CallReset i d) s = Some s1 \<and> pc s1 = Waiting \<and>
               calls s1 i = ResetSelect d \<and> chan_c s1 = chan_c s \<and> trace s1 = trace s \<and>
               clocks s1 = clocks s \<and> ticker s1 = ticker s \<and>
               step (RecvReset i) s1 = Some s2 \<and>
               pc s2 = Crashed NonPositiveInterval \<and> calls s2 i = ResetWait d \<and>
               trace s2 = trace s @ drain_acts (DropTickOnReset (cfg s)) s @ clock_acts 0 s \<and>
               buf (chan_c s2) =
                 (if DropTickOnReset (cfg s) then tl (buf (chan_c s)) else buf (chan_c s)) \<and>
               ticker s2 = ticker s \<and> clocks s2 = stopped_clocks s))"
proof -
  have n: "\<And>s. newTicker d s =
      Inl (NonPositiveInterval, case ticker s of Some h \<Rightarrow> time_Ticker_Stop h s | None \<Rightarrow> s)"
    using newTicker_neg[OF assms] .
  have c: "NewTicker_cfg cf d = Inl NonPositiveInterval" for cf
    by (simp add: NewTicker_cfg_def n)
  have r: "calls s i = NotCalled \<and> pc s = Waiting \<longrightarrow>
            (\<exists>s1 s2. step (CallReset i d) s = Some s1 \<and> pc s1 = Waiting \<and>
               calls s1 i = ResetSelect d \<and> chan_c s1 = chan_c s \<and> trace s1 = trace s \<and>
               clocks s1 = clocks s \<and> ticker s1 = ticker s \<and>
               step (RecvReset i) s1 = Some s2 \<and>
               pc s2 = Crashed NonPositiveInterval \<and> calls s2 i = ResetWait d \<and>
               trace s2 = trace s @ drain_acts (DropTickOnReset (cfg s)) s @ clock_acts 0 s \<and>
               buf (chan_c s2) =
                 (if DropTickOnReset (cfg s) then tl (buf (chan_c s)) else buf (chan_c s)) \<and>
               ticker s2 = ticker s \<and> clocks s2 = stopped_clocks s)"
  proof
    assume a: "calls s i = NotCalled \<and> pc s = Waiting"
    define s1 where "s1 = s\<lparr>wg := (wg s)(i := 1), calls := (calls s)(i := ResetSelect d)\<rparr>"
    let ?s1 = s1
    let ?s2 = "run_reset i d s1"
    have g: "pc s1 = pc s" "calls s1 i = ResetSelect d" "chan_c s1 = chan_c s"
      "trace s1 = trace s" "clocks s1 = clocks s" "ticker s1 = ticker s" "cfg s1 = cfg s"
      by (simp_all add: s1_def)
    have 1: "step (CallReset i d) s = Some ?s1" using a by (simp add: s1_def)
    have 2: "step (RecvReset i) ?s1 = Some ?s2" using a g by simp
    have e: "drain_acts b ?s1 = drain_acts b s" "clock_acts 0 ?s1 = clock_acts 0 s"
      "stopped_clocks ?s1 = stopped_clocks s" for b
      by (simp_all add: drain_acts_def clock_acts_def stopped_clocks_def g split: option.splits)
    note f = run_reset_neg[OF assms, of i s1]
    have 3: "pc ?s2 = Crashed NonPositiveInterval \<and> calls ?s2 i = ResetWait d \<and>
               trace ?s2 = trace s @ drain_acts (DropTickOnReset (cfg s)) s @ clock_acts 0 s \<and>
               buf (chan_c ?s2) =
                 (if DropTickOnReset (cfg s) then tl (buf (chan_c s)) else buf (chan_c s)) \<and>
               ticker ?s2 = ticker s \<and> clocks ?s2 = stopped_clocks s"
      by (simp add: f e g)
    show "\<exists>s1 s2. step (CallReset i d) s = Some s1 \<and> pc s1 = Waiting \<and>
               calls s1 i = ResetSelect d \<and> chan_c s1 = chan_c s \<and> trace s1 = trace s \<and>
               clocks s1 = clocks s \<and> ticker s1 = ticker s \<and>
               step (RecvReset i) s1 = Some s2 \<and>
               pc s2 = Crashed NonPositiveInterval \<and> calls s2 i = ResetWait d \<and>
               trace s2 = trace s @ drain_acts (DropTickOnReset (cfg s)) s @ clock_acts 0 s \<and>
               buf (chan_c s2) =
                 (if DropTickOnReset (cfg s) then tl (buf (chan_c s)) else buf (chan_c s)) \<and>
               ticker s2 = ticker s \<and> clocks s2 = stopped_clocks s"
      using 1 2 3 a g by (intro exI[of _ ?s1] exI[of _ ?s2]) (simp del: step.simps)
  qed
  show ?thesis
    using assms n c r by (simp add: time_NewTicker_def NewTicker_def execution_def)
qed

theorem negative_period_panics_witness:
  "NewTicker (- 1) = Inl NonPositiveInterval \<and>
   calls (the (execution drop_cfg 5 [FastPath, RecvTick 7, DoDrain, DoSend, FastPath])) 1 = NotCalled \<and>
   pc (the (execution drop_cfg 5 [FastPath, RecvTick 7, DoDrain, DoSend, FastPath])) = Waiting \<and>
   buf (chan_c (the (execution drop_cfg 5 [FastPath, RecvTick 7, DoDrain, DoSend, FastPath]))) = [7] \<and>
   (\<exists>s1 s2. step (CallReset 1 (- 1))
        (the (execution drop_cfg 5 [FastPath, RecvTick 7, DoDrain, DoSend, FastPath])) = Some s1 \<and>
      pc s1 = Waiting \<and>
      step (RecvReset 1) s1 = Some s2 \<and>
      pc s2 = Crashed NonPositiveInterval \<and> calls s2 1 = ResetWait (- 1) \<and>
      trace s2 = [ClockStart 0 5, Drain None, Send 7, Drain (Some 7), ClockStop 0] \<and>
      buf (chan_c s2) = [] \<and> ticker s2 = Some 0 \<and>
      clocks s2 = [\<lparr>period = 5, running = False\<rparr>])"
proof -
  let ?e = "execution drop_cfg 5 [FastPath, RecvTick 7, DoDrain, DoSend, FastPath]"
  have d: "(- 1 :: int) < 0" by simp
  have c: "calls (the ?e) 1 = NotCalled" "pc (the ?e) = Waiting" by (simp_all add: eval_defs)
  have b: "buf (chan_c (the ?e)) = [7]" "trace (the ?e) = [ClockStart 0 5, Drain None, Send 7]"
    "ticker (the ?e) = Some 0" "cfg (the ?e) = drop_cfg"
    "drain_acts True (the ?e) = [Drain (Some 7)]" "clock_acts 0 (the ?e) = [ClockStop 0]"
    "stopped_clocks (the ?e) = [\<lparr>period = 5, running = False\<rparr>]"
    by (simp_all add: eval_defs drain_acts_def clock_acts_def stopped_clocks_def)
  note w = negative_period_panics[OF d, of "the ?e" drop_cfg "[]" 1]
  have 1: "NewTicker (- 1) = Inl NonPositiveInterval"
    using w[THEN conjunct2, THEN conjunct2, THEN conjunct2, THEN conjunct1] .
  note w7 = w[THEN conjunct2, THEN conjunct2, THEN conjunct2, THEN conjunct2, THEN conjunct2,
      THEN conjunct2, THEN mp, OF conjI, OF c]
  have 2: "\<exists>s1 s2. step (CallReset 1 (- 1)) (the ?e) = Some s1 \<and> pc s1 = Waiting \<and>
      step (RecvReset 1) s1 = Some s2 \<and>
      pc s2 = Crashed NonPositiveInterval \<and> calls s2 1 = ResetWait (- 1) \<and>
      trace s2 = [ClockStart 0 5, Drain None, Send 7, Drain (Some 7), ClockStop 0] \<and>
      buf (chan_c s2) = [] \<and> ticker s2 = Some 0 \<and>
      clocks s2 = [\<lparr>period = 5, running = False\<rparr>]"
    using w7 b by (auto simp del: step.simps)
  show ?thesis by (intro conjI) (rule 1 c b(1) 2)+
qed

lemma acts_no_close [simp]:
  "count_list (drain_acts b s) Close = 0" "count_list (clock_acts d s) Close = 0"
  by (auto simp: drain_acts_def clock_acts_def split: option.splits)

lemma close_inv_same:
  assumes "close_inv s" "trace s' = trace s" "is_closed (chan_c s') = is_closed (chan_c s)"
    "cfg s' = cfg s"
  shows "close_inv s'"
  using assms by (simp add: close_inv_def)

lemma close_inv_init:
  assumes "NewTicker_cfg cf d = Inr s0"
  shows "close_inv s0"
proof -
  let ?e = "\<lparr>cfg = cf, chan_c = make_chan 1, stop = NewShutdown, ticker = None, clocks = [],
        wg = (\<lambda>_. 0), calls = (\<lambda>_. NotCalled), pc = Top, trace = []\<rparr>"
  have n: "newTicker d ?e = Inr s0"
    using assms by (simp add: NewTicker_cfg_def split: sum.splits prod.splits)
  show ?thesis
    using newTicker_frame[OF n] newTicker_trace'[OF n]
    by (simp add: close_inv_def make_chan_def)
qed

lemma step_close_inv:
  assumes "invariant s" "close_inv s" "step e s = Some s'"
  shows "close_inv s'"
proof -
  have c: "chan_inv s" and k: "call_inv s" using assms(1) by (simp_all add: invariant_def)
  note ci = assms(2)
  have cd: "count_list (trace s) Close = (if is_closed (chan_c s) then 1 else 0)"
    "is_closed (chan_c s) \<Longrightarrow> CloseOnStop (cfg s)"
    using assms(2) by (simp_all add: close_inv_def)
  from assms(3) show ?thesis
  proof (cases rule: step_cases)
    case (FastStop)
    have o: "\<not> is_closed (chan_c s)" using open_while_running[OF c] FastStop(2) by simp
    show ?thesis unfolding FastStop(4)
      using cd(1) o by (simp add: close_inv_def run_stop_fields[OF o])
  next
    case (RecvStop)
    have o: "\<not> is_closed (chan_c s)" using open_while_running[OF c] RecvStop(2) by simp
    show ?thesis unfolding RecvStop(4)
      using cd(1) o by (simp add: close_inv_def run_stop_fields[OF o])
  next
    case (RecvReset i d)
    show ?thesis
    proof (cases "d < 0")
      case True
      show ?thesis unfolding RecvReset(4)
        using cd by (simp add: close_inv_def run_reset_neg[OF True])
    next
      case False
      then have d: "0 \<le> d" by simp
      have w: "wg s i \<noteq> 0" using call_invD(2)[OF k RecvReset(3)] by simp
      show ?thesis unfolding RecvReset(4)
        using cd by (simp add: close_inv_def run_reset_fields[OF d w])
    qed
  next
    case (DoDrain tm)
    show ?thesis unfolding DoDrain(3)
      using cd by (simp add: close_inv_def drain_frame drain_chan drain_trace)
  next
    case (SendOk tm)
    show ?thesis unfolding SendOk(5) using cd by (simp add: close_inv_def)
  qed (simp_all add: close_inv_same[OF ci])
qed

lemma run_close_inv:
  "invariant s \<Longrightarrow> close_inv s \<Longrightarrow> run es s = Some s' \<Longrightarrow> close_inv s'"
proof (induction es arbitrary: s)
  case Nil
  then show ?case by simp
next
  case (Cons e es)
  then obtain s1 where s1: "step e s = Some s1" "run es s1 = Some s'"
    by (auto split: option.splits)
  show ?case
    using Cons.IH[OF step_invariant[OF Cons.prems(1) s1(1)]
        step_close_inv[OF Cons.prems(1,2) s1(1)] s1(2)] .
qed

lemma execution_close_inv: "execution cf d es = Some s \<Longrightarrow> close_inv s"
proof -
  assume a: "execution cf d es = Some s"
  then obtain s0 where s0: "NewTicker_cfg cf d = Inr s0" "run es s0 = Some s"
    by (auto simp: execution_def split: sum.splits)
  show ?thesis using run_close_inv[OF invariant_init[OF s0(1)] close_inv_init[OF s0(1)] s0(2)] .
qed

lemma step_not_loop:
  assumes "step e s = Some s'" "\<not> loop_event e"
  shows "is_closed (chan_c s') = is_closed (chan_c s) \<and> trace s' = trace s \<and>
         suffix (buf (chan_c s')) (buf (chan_c s)) \<and> pc s' = pc s"
  using assms(1)
proof (cases rule: step_cases)
  case Consume
  then show ?thesis by (simp add: suffix_tl)
qed (use assms(2) in simp_all)

lemma loop_event_stopped: "pc s = Returned \<Longrightarrow> loop_event e \<Longrightarrow> step e s = None"
  by (cases e) (simp_all split: call.splits)

text \<open>
  C10. In every state of every execution: the loop has not panicked on a send to a closed
  channel, nor on a second close; the output channel is closed only if \<open>CloseOnStop\<close> is
  set and only once the loop has returned, and it has been closed at most once; whenever
  the loop is about to send, the channel is open and the send succeeds; only the steps of
  the control loop send on or close the channel (the steps of callers and consumers leave
  the history and the closed flag alone and can only take from the buffer); no step leads
  to the panic; and once the loop has returned it takes no further step.
\<close>

theorem no_send_on_closed_channel:
  assumes "execution cf d0 es = Some s"
  shows "pc s \<noteq> Crashed SendOnClosedChannel \<and> pc s \<noteq> Crashed CloseOfClosedChannel \<and>
     (is_closed (chan_c s) \<longrightarrow> pc s = Returned \<and> CloseOnStop cf) \<and>
     count_list (trace s) Close = (if is_closed (chan_c s) then 1 else 0) \<and>
     (\<forall>tm. pc s = Sending tm \<longrightarrow>
        \<not> is_closed (chan_c s) \<and>
        chan_send tm (chan_c s) = Some (Inr ((chan_c s)\<lparr>buf := [tm]\<rparr>))) \<and>
     (\<forall>e s'. step e s = Some s' \<and> \<not> loop_event e \<longrightarrow>
        is_closed (chan_c s') = is_closed (chan_c s) \<and> trace s' = trace s \<and>
        suffix (buf (chan_c s')) (buf (chan_c s))) \<and>
     (\<forall>e s'. step e s = Some s' \<longrightarrow> pc s' \<noteq> Crashed SendOnClosedChannel) \<and>
     (\<forall>e. pc s = Returned \<and> loop_event e \<longrightarrow> step e s = None)"
proof -
  have i: "invariant s" using execution_invariant[OF assms] .
  then have c: "chan_inv s" by (simp add: invariant_def)
  have cf: "cfg s = cf" using execution_cfg[OF assms] .
  have cl: "close_inv s" using execution_close_inv[OF assms] .
  note cd = chan_invD[OF c]
  have 1: "pc s \<noteq> Crashed SendOnClosedChannel" "pc s \<noteq> Crashed CloseOfClosedChannel"
    using cd(5) by auto
  have 2: "is_closed (chan_c s) \<longrightarrow> pc s = Returned \<and> CloseOnStop cf"
    using cd(4) cl cf by (simp add: close_inv_def)
  have 3: "count_list (trace s) Close = (if is_closed (chan_c s) then 1 else 0)"
    using cl by (simp add: close_inv_def)
  have 4: "\<forall>tm. pc s = Sending tm \<longrightarrow>
        \<not> is_closed (chan_c s) \<and>
        chan_send tm (chan_c s) = Some (Inr ((chan_c s)\<lparr>buf := [tm]\<rparr>))"
  proof (intro allI impI)
    fix tm assume p: "pc s = Sending tm"
    have o: "\<not> is_closed (chan_c s)" using cd(4) p by auto
    show "\<not> is_closed (chan_c s) \<and>
        chan_send tm (chan_c s) = Some (Inr ((chan_c s)\<lparr>buf := [tm]\<rparr>))"
      using o cd(1) cd(3)[OF p] by (simp add: chan_send_def)
  qed
  have 5: "\<forall>e s'. step e s = Some s' \<and> \<not> loop_event e \<longrightarrow>
        is_closed (chan_c s') = is_closed (chan_c s) \<and> trace s' = trace s \<and>
        suffix (buf (chan_c s')) (buf (chan_c s))"
    using step_not_loop by blast
  have 6: "\<forall>e s'. step e s = Some s' \<longrightarrow> pc s' \<noteq> Crashed SendOnClosedChannel"
  proof (intro allI impI)
    fix e s' assume st: "step e s = Some s'"
    have "chan_inv s'" using step_invariant[OF i st] by (simp add: invariant_def)
    then show "pc s' \<noteq> Crashed SendOnClosedChannel" using chan_invD(5)[of s'] by auto
  qed
  have 7: "\<forall>e. pc s = Returned \<and> loop_event e \<longrightarrow> step e s = None"
    using loop_event_stopped by blast
  show ?thesis using 1 2 3 4 5 6 7 by blast
qed

theorem no_send_on_closed_channel_witness:
  "is_closed (chan_c (the (execution close_cfg 5 [FastPath, RecvTick 7, DoDrain, DoSend, CallStop 1, FastPath]))) \<and>
   pc (the (execution close_cfg 5 [FastPath, RecvTick 7, DoDrain, DoSend, CallStop 1, FastPath])) = Returned \<and>
   count_list (trace (the (execution close_cfg 5 [FastPath, RecvTick 7, DoDrain, DoSend, CallStop 1, FastPath]))) Close = 1 \<and>
   step DoSend (the (execution close_cfg 5 [FastPath, RecvTick 7, DoDrain, DoSend, CallStop 1, FastPath])) = None \<and>
   (\<exists>s'. step Consume (the (execution close_cfg 5 [FastPath, RecvTick 7, DoDrain, DoSend, CallStop 1, FastPath])) = Some s' \<and>
      is_closed (chan_c s') \<and>
      trace s' = trace (the (execution close_cfg 5 [FastPath, RecvTick 7, DoDrain, DoSend, CallStop 1, FastPath]))) \<and>
   pc (the (execution close_cfg 5 [FastPath, RecvTick 7, DoDrain])) = Sending 7 \<and>
   \<not> is_closed (chan_c (the (execution close_cfg 5 [FastPath, RecvTick 7, DoDrain]))) \<and>
   chan_send 7 (chan_c (the (execution close_cfg 5 [FastPath, RecvTick 7, DoDrain]))) =
     Some (Inr ((chan_c (the (execution close_cfg 5 [FastPath, RecvTick 7, DoDrain])))\<lparr>buf := [7]\<rparr>)) \<and>
   (\<exists>s'. step DoSend (the (execution close_cfg 5 [FastPath, RecvTick 7, DoDrain])) = Some s' \<and>
      pc s' \<noteq> Crashed SendOnClosedChannel)"
proof -
  let ?a = "execution close_cfg 5 [FastPath, RecvTick 7, DoDrain, DoSend, CallStop 1, FastPath]"
  let ?b = "execution close_cfg 5 [FastPath, RecvTick 7, DoDrain]"
  have a: "?a = Some (the ?a)" by (simp add: eval_defs)
  have a1: "is_closed (chan_c (the ?a))" by (simp add: eval_defs)
  note wa = no_send_on_closed_channel[OF a]
  note wa3 = wa[THEN conjunct2, THEN conjunct2, THEN conjunct1]
  note wa4 = wa[THEN conjunct2, THEN conjunct2, THEN conjunct2, THEN conjunct1]
  note wa6 = wa[THEN conjunct2, THEN conjunct2, THEN conjunct2, THEN conjunct2, THEN conjunct2,
      THEN conjunct1, rule_format]
  note wa8 = wa[THEN conjunct2, THEN conjunct2, THEN conjunct2, THEN conjunct2, THEN conjunct2,
      THEN conjunct2, THEN conjunct2, rule_format]
  have a2: "pc (the ?a) = Returned" using wa3 a1 by blast
  have a3: "count_list (trace (the ?a)) Close = 1" using wa4 a1 by simp
  have le: "loop_event DoSend" "\<not> loop_event Consume" by simp_all
  have a4: "step DoSend (the ?a) = None" using wa8[of DoSend] a2 le(1) by blast
  have a5: "step Consume (the ?a) = Some (the (step Consume (the ?a)))"
    by (simp add: eval_defs)
  have a6: "\<exists>s'. step Consume (the ?a) = Some s' \<and> is_closed (chan_c s') \<and>
      trace s' = trace (the ?a)"
    using wa6[of Consume "the (step Consume (the ?a))"] a5 a1 le(2) by blast
  have b: "?b = Some (the ?b)" by (simp add: eval_defs)
  have b1: "pc (the ?b) = Sending 7" by (simp add: eval_defs)
  note wb = no_send_on_closed_channel[OF b]
  note wb5 = wb[THEN conjunct2, THEN conjunct2, THEN conjunct2, THEN conjunct2, THEN conjunct1,
      rule_format]
  note wb7 = wb[THEN conjunct2, THEN conjunct2, THEN conjunct2, THEN conjunct2, THEN conjunct2,
      THEN conjunct2, THEN conjunct1, rule_format]
  have b2: "\<not> is_closed (chan_c (the ?b))"
    "chan_send 7 (chan_c (the ?b)) = Some (Inr ((chan_c (the ?b))\<lparr>buf := [7]\<rparr>))"
    using wb5[OF b1] by blast+
  have b3: "step DoSend (the ?b) = Some (the (step DoSend (the ?b)))"
    by (simp add: eval_defs)
  have b4: "\<exists>s'. step DoSend (the ?b) = Some s' \<and> pc s' \<noteq> Crashed SendOnClosedChannel"
    using wb7[OF b3] b3 by blast
  show ?thesis by (intro conjI) (rule a1 a2 a3 a4 a6 b1 b2 b4)+
qed

lemma requested_idem: "requested sh \<Longrightarrow> sh\<lparr>requested := True\<rparr> = sh"
  by (cases sh) simp

lemma second_stop_noop:
  assumes "invariant s" "pc s = Returned" "calls s j = NotCalled"
  shows "run [CallStop j, StopReturn j] s = Some (s\<lparr>calls := (calls s)(j := StopReturned)\<rparr>)"
proof -
  have si: "stop_inv s" using assms(1) by (simp add: invariant_def)
  have r: "requested (stop s)" "done_closed (stop s)"
    using stop_invD(2,3)[OF si] assms(2) by simp_all
  show ?thesis using assms(2,3) r
    by (simp add: crashed_def requested_idem CloseAndWait_request_def CloseAndWait_returns_def)
qed

lemma stop_taken:
  assumes "invariant s" "calls s i = StopWait" "pc s = Top \<or> pc s = Waiting"
  shows "init_ready (stop s)" "\<not> is_closed (chan_c s)"
    "step (StopReturn i) (run_stop s) = Some ((run_stop s)\<lparr>calls := (calls s)(i := StopReturned)\<rparr>)"
proof -
  have c: "chan_inv s" and k: "call_inv s" and si: "stop_inv s"
    using assms(1) by (simp_all add: invariant_def)
  have p: "pc s \<noteq> Returned" using assms(3) by auto
  show o: "\<not> is_closed (chan_c s)" using open_while_running[OF c p] .
  show "init_ready (stop s)"
    using call_invD(6)[OF k assms(2)] stop_invD(1)[OF si] p by (simp add: init_ready_def)
  show "step (StopReturn i) (run_stop s) =
      Some ((run_stop s)\<lparr>calls := (calls s)(i := StopReturned)\<rparr>)"
    using assms(2) by (simp add: run_stop_fields[OF o] crashed_def CloseAndWait_returns_def)
qed

lemma stop_from_top:
  assumes "invariant s" "calls s i = StopWait" "pc s = Top"
  shows "\<exists>s'. run [FastPath, StopReturn i] s = Some s' \<and> calls s' i = StopReturned"
  using stop_taken[OF assms(1,2)] assms(3) by simp

lemma stop_from_waiting:
  assumes "invariant s" "calls s i = StopWait" "pc s = Waiting"
  shows "\<exists>s'. run [RecvStop, StopReturn i] s = Some s' \<and> calls s' i = StopReturned"
  using stop_taken[OF assms(1,2)] assms(3) by simp

lemma stop_from_sending:
  assumes "invariant s" "calls s i = StopWait" "pc s = Sending tm"
  shows "\<exists>s'. run [DoSend, FastPath, StopReturn i] s = Some s' \<and> calls s' i = StopReturned"
proof -
  let ?s1 = "s\<lparr>chan_c := (chan_c s)\<lparr>buf := [tm]\<rparr>, trace := trace s @ [Send tm], pc := Top\<rparr>"
  have st: "step DoSend s = Some ?s1" using send_enabled[OF assms(1,3)] .
  have i1: "invariant ?s1" using step_invariant[OF assms(1) st] .
  have "\<exists>s'. run [FastPath, StopReturn i] ?s1 = Some s' \<and> calls s' i = StopReturned"
    using stop_from_top[OF i1, of i] assms(2) by simp
  then show ?thesis using st by simp
qed

lemma stop_from_draining:
  assumes "invariant s" "calls s i = StopWait" "pc s = Draining tm"
  shows "\<exists>s'. run [DoDrain, DoSend, FastPath, StopReturn i] s = Some s' \<and>
     calls s' i = StopReturned"
proof -
  let ?s1 = "(drain s)\<lparr>pc := Sending tm\<rparr>"
  have st: "step DoDrain s = Some ?s1" using assms(3) by simp
  have i1: "invariant ?s1" using step_invariant[OF assms(1) st] .
  have "\<exists>s'. run [DoSend, FastPath, StopReturn i] ?s1 = Some s' \<and> calls s' i = StopReturned"
    using stop_from_sending[OF i1, of i tm] assms(2) by (simp add: drain_frame)
  then show ?thesis using st by simp
qed

lemma stop_from_returned:
  assumes "invariant s" "calls s i = StopWait" "pc s = Returned"
  shows "\<exists>s'. run [StopReturn i] s = Some s' \<and> calls s' i = StopReturned"
proof -
  have si: "stop_inv s" using assms(1) by (simp add: invariant_def)
  show ?thesis using stop_invD(2)[OF si] assms(2,3)
    by (simp add: crashed_def CloseAndWait_returns_def)
qed

lemma stop_completes:
  assumes "invariant s" "calls s i = StopWait" "\<not> crashed s"
  shows "\<exists>es' s'. list_all loop_event es' \<and> run (es' @ [StopReturn i]) s = Some s' \<and>
     calls s' i = StopReturned"
proof (cases "pc s")
  case Top
  show ?thesis using stop_from_top[OF assms(1,2) Top]
    by (intro exI[of _ "[FastPath]"]) simp
next
  case Waiting
  show ?thesis using stop_from_waiting[OF assms(1,2) Waiting]
    by (intro exI[of _ "[RecvStop]"]) simp
next
  case (Draining tm)
  show ?thesis using stop_from_draining[OF assms(1,2) Draining]
    by (intro exI[of _ "[DoDrain, DoSend, FastPath]"]) simp
next
  case (Sending tm)
  show ?thesis using stop_from_sending[OF assms(1,2) Sending]
    by (intro exI[of _ "[DoSend, FastPath]"]) simp
next
  case Returned
  show ?thesis using stop_from_returned[OF assms(1,2) Returned]
    by (intro exI[of _ "[]"]) simp
next
  case (Crashed f)
  then show ?thesis using assms(3) by (simp add: crashed_def)
qed

lemma teardown_init:
  assumes "NewTicker_cfg cf d = Inr s0"
  shows "teardown_inv s0"
proof -
  let ?e = "\<lparr>cfg = cf, chan_c = make_chan 1, stop = NewShutdown, ticker = None, clocks = [],
        wg = (\<lambda>_. 0), calls = (\<lambda>_. NotCalled), pc = Top, trace = []\<rparr>"
  have n: "newTicker d ?e = Inr s0"
    using assms by (simp add: NewTicker_cfg_def split: sum.splits prod.splits)
  show ?thesis using newTicker_frame(6)[OF n] by (simp add: teardown_inv_def)
qed

lemma teardown_run_stop:
  assumes "invariant s" "pc s = Top \<or> pc s = Waiting"
  shows "teardown_inv (run_stop s)"
proof -
  have c: "chan_inv s" and co: "clock_ok s" and si: "stop_inv s"
    using assms(1) by (simp_all add: invariant_def)
  have p: "pc s \<noteq> Returned" using assms(2) by auto
  have o: "\<not> is_closed (chan_c s)" using open_while_running[OF c p] .
  have ci: "clock_inv s" using clock_inv_of_ok[OF co] assms(2) by auto
  note f = run_stop_fields[OF o]
  have l: "live_clocks (run_stop s) = []" by (rule stopped_live[OF ci]) (simp add: f)
  have na: "StopAck \<notin> set (trace s)"
    using stop_invD(5)[OF si] p by (simp add: count_list_0_iff)
  have "stopped_from s (run_stop s)"
    using p ci na by (simp add: stopped_from_def f)
  then show ?thesis
    using l chan_invD(2)[OF c] by (auto simp: teardown_inv_def f tl_short)
qed

lemma teardown_stopped:
  assumes "invariant s" "teardown_inv s" "pc s = Returned" "step e s = Some s'"
  shows "teardown_inv s'"
proof -
  have st: "pc s' = Returned" "trace s' = trace s" "suffix (buf (chan_c s')) (buf (chan_c s))"
    "is_closed (chan_c s') = is_closed (chan_c s)" "ticker s' = ticker s" "clocks s' = clocks s"
    using step_stopped[OF assms(3,4)] by simp_all
  have cf: "cfg s' = cfg s" using step_cfg[OF assms(1,4)] .
  have t: "live_clocks s = []" "is_closed (chan_c s) = CloseOnStop (cfg s)"
    "DropTickOnStop (cfg s) \<longrightarrow> buf (chan_c s) = []" "\<exists>s0. stopped_from s0 s"
    using assms(2,3) by (simp_all add: teardown_inv_def)
  have l: "live_clocks s' = []" using t(1) st(6) by (simp add: live_clocks_def)
  have b: "DropTickOnStop (cfg s') \<longrightarrow> buf (chan_c s') = []" using t(3) st(3) cf by auto
  have f: "\<exists>s0. stopped_from s0 s'" using t(4) st(2) cf by (simp add: stopped_from_def)
  show ?thesis using l b f t(2) st(4) cf by (simp add: teardown_inv_def)
qed

lemma step_teardown:
  assumes "invariant s" "teardown_inv s" "step e s = Some s'"
  shows "teardown_inv s'"
proof (cases "pc s = Returned")
  case True
  show ?thesis using teardown_stopped[OF assms(1,2) True assms(3)] .
next
  case False
  have k: "call_inv s" using assms(1) by (simp add: invariant_def)
  from assms(3) show ?thesis
  proof (cases rule: step_cases)
    case (FastStop)
    show ?thesis unfolding FastStop(4) using teardown_run_stop[OF assms(1)] FastStop(2) by simp
  next
    case (RecvStop)
    show ?thesis unfolding RecvStop(4) using teardown_run_stop[OF assms(1)] RecvStop(2) by simp
  next
    case (RecvReset i d)
    show ?thesis
    proof (cases "d < 0")
      case True
      show ?thesis unfolding RecvReset(4)
        by (simp add: teardown_inv_def run_reset_neg[OF True])
    next
      case False
      then have d: "0 \<le> d" by simp
      have w: "wg s i \<noteq> 0" using call_invD(2)[OF k RecvReset(3)] by simp
      show ?thesis unfolding RecvReset(4)
        by (simp add: teardown_inv_def run_reset_fields[OF d w])
    qed
  qed (use False in \<open>simp_all add: teardown_inv_def\<close>)
qed

lemma run_teardown:
  "invariant s \<Longrightarrow> teardown_inv s \<Longrightarrow> run es s = Some s' \<Longrightarrow> teardown_inv s'"
proof (induction es arbitrary: s)
  case Nil
  then show ?case by simp
next
  case (Cons e es)
  then obtain s1 where s1: "step e s = Some s1" "run es s1 = Some s'"
    by (auto split: option.splits)
  show ?case
    using Cons.IH[OF step_invariant[OF Cons.prems(1) s1(1)]
        step_teardown[OF Cons.prems(1,2) s1(1)] s1(2)] .
qed

lemma execution_teardown: "execution cf d es = Some s \<Longrightarrow> teardown_inv s"
proof -
  assume a: "execution cf d es = Some s"
  then obtain s0 where s0: "NewTicker_cfg cf d = Inr s0" "run es s0 = Some s"
    by (auto simp: execution_def split: sum.splits)
  show ?thesis using run_teardown[OF invariant_init[OF s0(1)] teardown_init[OF s0(1)] s0(2)] .
qed

text \<open>
  C8. With the shutdown helper as the spec describes it: in every state of every execution
  the teardown has been acknowledged at most once; a call of \<open>Stop\<close> that has returned
  did so after the one teardown had finished: the loop has returned, no clock runs,
  \<open>t.ticker\<close> is \<open>nil\<close>, the output channel is closed exactly when \<open>CloseOnStop\<close> is
  set, the buffer is empty when \<open>DropTickOnStop\<close> is set, and the history ends with the
  whole teardown (drain, close, stop of the clock) followed by the one acknowledgement;
  a call of \<open>Stop\<close> that waits cannot return while the loop has not returned; a call of
  \<open>Stop\<close> made after the teardown returns at once and changes nothing but its own status;
  and from every state in which a call of \<open>Stop\<close> waits and the program has not panicked,
  the loop has steps of its own after which that call returns, still with one teardown,
  which is then finished.
\<close>

theorem stop_idempotent:
  assumes "execution cf d0 es = Some s"
  shows "count_list (trace s) StopAck \<le> 1 \<and>
     (calls s i = StopReturned \<longrightarrow>
        pc s = Returned \<and> done_closed (stop s) \<and> count_list (trace s) StopAck = 1 \<and>
        ticker s = None \<and> live_clocks s = [] \<and>
        is_closed (chan_c s) = CloseOnStop cf \<and>
        (DropTickOnStop cf \<longrightarrow> buf (chan_c s) = []) \<and>
        (\<exists>s0. pc s0 \<noteq> Returned \<and> clock_inv s0 \<and> StopAck \<notin> set (trace s0) \<and>
           trace s = trace s0 @ drain_acts (DropTickOnStop cf) s0 @
                     (if CloseOnStop cf then [Close] else []) @ clock_acts 0 s0 @ [StopAck])) \<and>
     (calls s i = StopWait \<and> pc s \<noteq> Returned \<longrightarrow> step (StopReturn i) s = None) \<and>
     (pc s = Returned \<and> calls s j = NotCalled \<longrightarrow>
        run [CallStop j, StopReturn j] s = Some (s\<lparr>calls := (calls s)(j := StopReturned)\<rparr>)) \<and>
     (calls s i = StopWait \<and> \<not> crashed s \<longrightarrow>
        (\<exists>es' s'. list_all loop_event es' \<and> run (es' @ [StopReturn i]) s = Some s' \<and>
           calls s' i = StopReturned \<and> count_list (trace s') StopAck = 1 \<and>
           ticker s' = None \<and> live_clocks s' = [] \<and>
           is_closed (chan_c s') = CloseOnStop cf \<and>
           (DropTickOnStop cf \<longrightarrow> buf (chan_c s') = [])))"
proof -
  have i: "invariant s" using execution_invariant[OF assms] .
  then have k: "call_inv s" and si: "stop_inv s" by (simp_all add: invariant_def)
  have td: "teardown_inv s" using execution_teardown[OF assms] .
  have cf: "cfg s = cf" using execution_cfg[OF assms] .
  note sd = stop_invD[OF si]
  have 1: "count_list (trace s) StopAck \<le> 1" using sd(5) by simp
  have 2: "calls s i = StopReturned \<longrightarrow>
        pc s = Returned \<and> done_closed (stop s) \<and> count_list (trace s) StopAck = 1 \<and>
        ticker s = None \<and> live_clocks s = [] \<and>
        is_closed (chan_c s) = CloseOnStop cf \<and>
        (DropTickOnStop cf \<longrightarrow> buf (chan_c s) = []) \<and>
        (\<exists>s0. pc s0 \<noteq> Returned \<and> clock_inv s0 \<and> StopAck \<notin> set (trace s0) \<and>
           trace s = trace s0 @ drain_acts (DropTickOnStop cf) s0 @
                     (if CloseOnStop cf then [Close] else []) @ clock_acts 0 s0 @ [StopAck])"
  proof
    assume a: "calls s i = StopReturned"
    have p: "pc s = Returned" using call_invD(7)[OF k a] .
    have t: "live_clocks s = []" "is_closed (chan_c s) = CloseOnStop cf"
      "DropTickOnStop cf \<longrightarrow> buf (chan_c s) = []"
      "\<exists>s0. pc s0 \<noteq> Returned \<and> clock_inv s0 \<and> StopAck \<notin> set (trace s0) \<and>
           trace s = trace s0 @ drain_acts (DropTickOnStop cf) s0 @
                     (if CloseOnStop cf then [Close] else []) @ clock_acts 0 s0 @ [StopAck]"
      using td p cf by (simp_all add: teardown_inv_def stopped_from_def)
    show "pc s = Returned \<and> done_closed (stop s) \<and> count_list (trace s) StopAck = 1 \<and>
        ticker s = None \<and> live_clocks s = [] \<and>
        is_closed (chan_c s) = CloseOnStop cf \<and>
        (DropTickOnStop cf \<longrightarrow> buf (chan_c s) = []) \<and>
        (\<exists>s0. pc s0 \<noteq> Returned \<and> clock_inv s0 \<and> StopAck \<notin> set (trace s0) \<and>
           trace s = trace s0 @ drain_acts (DropTickOnStop cf) s0 @
                     (if CloseOnStop cf then [Close] else []) @ clock_acts 0 s0 @ [StopAck])"
      using p sd(2,4,5) t by simp
  qed
  have 3: "calls s i = StopWait \<and> pc s \<noteq> Returned \<longrightarrow> step (StopReturn i) s = None"
    using sd(2) by (simp add: CloseAndWait_returns_def)
  have 4: "pc s = Returned \<and> calls s j = NotCalled \<longrightarrow>
        run [CallStop j, StopReturn j] s = Some (s\<lparr>calls := (calls s)(j := StopReturned)\<rparr>)"
    using second_stop_noop[OF i] by blast
  have 5: "calls s i = StopWait \<and> \<not> crashed s \<longrightarrow>
        (\<exists>es' s'. list_all loop_event es' \<and> run (es' @ [StopReturn i]) s = Some s' \<and>
           calls s' i = StopReturned \<and> count_list (trace s') StopAck = 1 \<and>
           ticker s' = None \<and> live_clocks s' = [] \<and>
           is_closed (chan_c s') = CloseOnStop cf \<and>
           (DropTickOnStop cf \<longrightarrow> buf (chan_c s') = []))"
  proof
    assume a: "calls s i = StopWait \<and> \<not> crashed s"
    then obtain es' s' where r: "list_all loop_event es'"
        "run (es' @ [StopReturn i]) s = Some s'" "calls s' i = StopReturned"
      using stop_completes[OF i, of i] by blast
    have i': "invariant s'" using run_invariant[OF i r(2)] .
    then have k': "call_inv s'" and si': "stop_inv s'" by (simp_all add: invariant_def)
    have td': "teardown_inv s'" using run_teardown[OF i td r(2)] .
    have cf': "cfg s' = cf" using run_cfg[OF i r(2)] cf by simp
    have p': "pc s' = Returned" using call_invD(7)[OF k' r(3)] .
    have "count_list (trace s') StopAck = 1 \<and> ticker s' = None \<and> live_clocks s' = [] \<and>
           is_closed (chan_c s') = CloseOnStop cf \<and>
           (DropTickOnStop cf \<longrightarrow> buf (chan_c s') = [])"
      using p' stop_invD(4,5)[OF si'] td' cf' by (simp add: teardown_inv_def)
    then show "\<exists>es' s'. list_all loop_event es' \<and> run (es' @ [StopReturn i]) s = Some s' \<and>
           calls s' i = StopReturned \<and> count_list (trace s') StopAck = 1 \<and>
           ticker s' = None \<and> live_clocks s' = [] \<and>
           is_closed (chan_c s') = CloseOnStop cf \<and>
           (DropTickOnStop cf \<longrightarrow> buf (chan_c s') = [])"
      using r by blast
  qed
  show ?thesis using 1 2 3 4 5 by blast
qed

theorem stop_idempotent_witness:
  "calls (the (execution close_drop_cfg 5
        [FastPath, RecvTick 7, DoDrain, DoSend, FastPath, RecvTick 8, CallStop 1, CallStop 2])) 1 = StopWait \<and>
   calls (the (execution close_drop_cfg 5
        [FastPath, RecvTick 7, DoDrain, DoSend, FastPath, RecvTick 8, CallStop 1, CallStop 2])) 2 = StopWait \<and>
   pc (the (execution close_drop_cfg 5
        [FastPath, RecvTick 7, DoDrain, DoSend, FastPath, RecvTick 8, CallStop 1, CallStop 2])) = Draining 8 \<and>
   buf (chan_c (the (execution close_drop_cfg 5
        [FastPath, RecvTick 7, DoDrain, DoSend, FastPath, RecvTick 8, CallStop 1, CallStop 2]))) = [7] \<and>
   live_clocks (the (execution close_drop_cfg 5
        [FastPath, RecvTick 7, DoDrain, DoSend, FastPath, RecvTick 8, CallStop 1, CallStop 2])) = [0] \<and>
   step (StopReturn 2) (the (execution close_drop_cfg 5
        [FastPath, RecvTick 7, DoDrain, DoSend, FastPath, RecvTick 8, CallStop 1, CallStop 2])) = None \<and>
   (\<exists>es' s'. list_all loop_event es' \<and>
      run (es' @ [StopReturn 1]) (the (execution close_drop_cfg 5
        [FastPath, RecvTick 7, DoDrain, DoSend, FastPath, RecvTick 8, CallStop 1, CallStop 2])) = Some s' \<and>
      calls s' 1 = StopReturned \<and> count_list (trace s') StopAck = 1 \<and>
      live_clocks s' = [] \<and> is_closed (chan_c s') \<and> buf (chan_c s') = []) \<and>
   calls (the (execution close_drop_cfg 5
        [FastPath, RecvTick 7, DoDrain, DoSend, FastPath, RecvTick 8, CallStop 1, CallStop 2, DoDrain, DoSend, FastPath,
         StopReturn 2])) 2 = StopReturned \<and>
   calls (the (execution close_drop_cfg 5
        [FastPath, RecvTick 7, DoDrain, DoSend, FastPath, RecvTick 8, CallStop 1, CallStop 2, DoDrain, DoSend, FastPath,
         StopReturn 2])) 3 = NotCalled \<and>
   pc (the (execution close_drop_cfg 5
        [FastPath, RecvTick 7, DoDrain, DoSend, FastPath, RecvTick 8, CallStop 1, CallStop 2, DoDrain, DoSend, FastPath,
         StopReturn 2])) = Returned \<and>
   count_list (trace (the (execution close_drop_cfg 5
        [FastPath, RecvTick 7, DoDrain, DoSend, FastPath, RecvTick 8, CallStop 1, CallStop 2, DoDrain, DoSend, FastPath,
         StopReturn 2]))) StopAck = 1 \<and>
   trace (the (execution close_drop_cfg 5
        [FastPath, RecvTick 7, DoDrain, DoSend, FastPath, RecvTick 8, CallStop 1, CallStop 2, DoDrain, DoSend, FastPath,
         StopReturn 2])) =
     [ClockStart 0 5, Drain None, Send 7, Drain (Some 7), Send 8, Drain (Some 8), Close,
      ClockStop 0, StopAck] \<and>
   live_clocks (the (execution close_drop_cfg 5
        [FastPath, RecvTick 7, DoDrain, DoSend, FastPath, RecvTick 8, CallStop 1, CallStop 2, DoDrain, DoSend, FastPath,
         StopReturn 2])) = [] \<and>
   is_closed (chan_c (the (execution close_drop_cfg 5
        [FastPath, RecvTick 7, DoDrain, DoSend, FastPath, RecvTick 8, CallStop 1, CallStop 2, DoDrain, DoSend, FastPath,
         StopReturn 2]))) \<and>
   buf (chan_c (the (execution close_drop_cfg 5
        [FastPath, RecvTick 7, DoDrain, DoSend, FastPath, RecvTick 8, CallStop 1, CallStop 2, DoDrain, DoSend, FastPath,
         StopReturn 2]))) = [] \<and>
   run [CallStop 3, StopReturn 3] (the (execution close_drop_cfg 5
        [FastPath, RecvTick 7, DoDrain, DoSend, FastPath, RecvTick 8, CallStop 1, CallStop 2, DoDrain, DoSend, FastPath,
         StopReturn 2])) =
     Some ((the (execution close_drop_cfg 5
        [FastPath, RecvTick 7, DoDrain, DoSend, FastPath, RecvTick 8, CallStop 1, CallStop 2, DoDrain, DoSend, FastPath,
         StopReturn 2]))
       \<lparr>calls := (calls (the (execution close_drop_cfg 5
        [FastPath, RecvTick 7, DoDrain, DoSend, FastPath, RecvTick 8, CallStop 1, CallStop 2, DoDrain, DoSend, FastPath,
         StopReturn 2])))(3 := StopReturned)\<rparr>)"
proof -
  let ?a = "execution close_drop_cfg 5
        [FastPath, RecvTick 7, DoDrain, DoSend, FastPath, RecvTick 8, CallStop 1, CallStop 2]"
  let ?b = "execution close_drop_cfg 5
        [FastPath, RecvTick 7, DoDrain, DoSend, FastPath, RecvTick 8, CallStop 1, CallStop 2, DoDrain, DoSend, FastPath,
         StopReturn 2]"
  have a: "?a = Some (the ?a)" by (simp add: eval_defs)
  have a1: "calls (the ?a) 1 = StopWait" "calls (the ?a) 2 = StopWait"
    "pc (the ?a) = Draining 8" "buf (chan_c (the ?a)) = [7]"
    by (simp_all add: eval_defs)
  have a0: "\<not> crashed (the ?a)" "pc (the ?a) \<noteq> Returned" "live_clocks (the ?a) = [0]"
    by (simp_all add: eval_defs live_clocks_def)
  have cs: "CloseOnStop close_drop_cfg" "DropTickOnStop close_drop_cfg" by simp_all
  note wa = stop_idempotent[OF a]
  note wa3 = wa[THEN conjunct2, THEN conjunct2, THEN conjunct1]
  note wa5 = wa[THEN conjunct2, THEN conjunct2, THEN conjunct2, THEN conjunct2]
  have a2: "step (StopReturn 2) (the ?a) = None" using wa3[of 2] a1(2) a0(2) by blast
  have a3: "\<exists>es' s'. list_all loop_event es' \<and>
      run (es' @ [StopReturn 1]) (the ?a) = Some s' \<and>
      calls s' 1 = StopReturned \<and> count_list (trace s') StopAck = 1 \<and>
      live_clocks s' = [] \<and> is_closed (chan_c s') \<and> buf (chan_c s') = []"
    using wa5[of 1] a1(1) a0(1) cs by blast
  have b: "?b = Some (the ?b)" by (simp add: eval_defs)
  have b1: "calls (the ?b) 2 = StopReturned" "calls (the ?b) 3 = NotCalled"
    by (simp_all add: eval_defs)
  have bt: "trace (the ?b) =
     [ClockStart 0 5, Drain None, Send 7, Drain (Some 7), Send 8, Drain (Some 8), Close,
      ClockStop 0, StopAck]"
    by (simp add: eval_defs)
  note wb = stop_idempotent[OF b]
  note wb2 = wb[THEN conjunct2, THEN conjunct1]
  note wb4 = wb[THEN conjunct2, THEN conjunct2, THEN conjunct2, THEN conjunct1]
  have b2: "pc (the ?b) = Returned" "count_list (trace (the ?b)) StopAck = 1"
    "live_clocks (the ?b) = []" "is_closed (chan_c (the ?b))" "buf (chan_c (the ?b)) = []"
    using wb2[of 2] b1(1) cs by blast+
  have b3: "run [CallStop 3, StopReturn 3] (the ?b) =
     Some ((the ?b)\<lparr>calls := (calls (the ?b))(3 := StopReturned)\<rparr>)"
    using wb4[of 3] b2(1) b1(2) by blast
  show ?thesis
    by (intro conjI) (rule a1 a0(3) a2 a3 b1 b2 bt b3)+
qed

end
